theory Spec2Isabelle
  imports Main "HOL-Library.Word"
begin

unbundle bit_operations_syntax

section \<open>The decoder of brdecode.cc as HOL functions\<close>

text \<open>
  The program keeps its state in globals (\<open>in_file\<close>, \<open>page\<close>, \<open>line\<close>,
  \<open>line_offset\<close>) and in the locals of \<open>read_page\<close> (\<open>in_raster\<close>, \<open>number\<close>,
  \<open>format\<close>), of which \<open>number\<close> is captured by reference by the closure that
  \<open>read_page\<close> hands to the raster decoder. All of them are fields of one record that
  every function takes and returns. \<open>in_file\<close> is the unread rest of the input stream;
  \<open>warnings\<close> collects the byte counts of the WARNING lines printed on stderr.

  \<open>unsigned\<close> and \<open>int\<close> are 32 bits wide, \<open>uint16_t\<close> 16 and \<open>uint8_t\<close> 8.
  \<open>line_offset\<close> and \<open>end\<close> are \<open>size_t\<close>; they are natural numbers here, which is
  exact as long as they stay below \<open>2 ^ 64\<close> (lemma \<open>read_edit_carry\<close> bounds the
  cursor by the length of the line, lemma \<open>read_page_bounded\<close> the length of the
  line by \<open>MAX_LINE_SIZE\<close>).

  The loops of the source are recursive functions. Those that are not structural
  (\<open>read_overflow_loop\<close>, \<open>drain\<close>, \<open>read_page_loop\<close>, \<open>main_loop\<close>) end because
  the input gets shorter; their termination proofs follow the definitions.

  An exception of the program is the \<open>Inl\<close> of a result; \<open>main\<close> catches it, prints
  it and exits with status 1, so the state at the throw is not observable.
\<close>

type_synonym byte = "8 word"

datatype error =
    Unsupported_compression "32 word"
  | Read_past_block_end
  | Unexpected_eof
  | Line_overflow

record state =
  in_file :: "byte list"
  page :: "byte list list"
  line :: "byte list"
  line_offset :: nat
  in_raster :: bool
  number :: "32 word"
  format :: "32 word"
  warnings :: "32 word list"

definition MAX_LINE_SIZE :: nat where
  "MAX_LINE_SIZE = 2000"

text \<open>\<open>get\<close> (lines 71-76): one byte of the input, \<open>unexpected_eof\<close> at its end.\<close>

definition get :: "state \<Rightarrow> error + byte \<times> state" where
  "get st =
     (case in_file st of
        [] \<Rightarrow> Inl Unexpected_eof
      | ch # rest \<Rightarrow> Inr (ch, st\<lparr>in_file := rest\<rparr>))"

text \<open>
  The closure \<open>get_next_block_character\<close> (lines 188-193). It is the only value the
  program ever passes for the \<open>next_character\<close> parameter of the raster decoder, so the
  decoder's functions below call it where the source calls \<open>next_character()\<close>.
\<close>

definition get_next_block_character :: "state \<Rightarrow> error + byte \<times> state" where
  "get_next_block_character st =
     (if number st \<le> 0 then Inl Read_past_block_end
      else get (st\<lparr>number := number st - 1\<rparr>))"

text \<open>
  \<open>read_overflow\<close> (lines 78-86). The do-while loop with its accumulator \<open>sum\<close>
  (\<open>acc\<close> here); it ends because every turn takes a byte of the input.
\<close>

function read_overflow_loop :: "32 word \<Rightarrow> state \<Rightarrow> error + 32 word \<times> state" where
  "read_overflow_loop acc st =
     (case get_next_block_character st of
        Inl e \<Rightarrow> Inl e
      | Inr (ch, st') \<Rightarrow>
          if ch = 255 then read_overflow_loop (acc + ucast ch) st'
          else Inr (acc + ucast ch, st'))"
  by pat_completeness auto

definition read_overflow :: "state \<Rightarrow> error + 32 word \<times> state" where
  "read_overflow st = read_overflow_loop 0 st"

text \<open>
  \<open>std::vector::resize\<close>, \<open>std::fill_n\<close> and \<open>std::generate_n\<close> on \<open>line\<close>. The two
  writers are only called with \<open>pos + n \<le> length\<close> of the line (the resize before them
  sees to it), so the list update is never out of range.
\<close>

definition resize :: "nat \<Rightarrow> byte list \<Rightarrow> byte list" where
  "resize n xs = take n xs @ replicate (n - length xs) 0"

fun fill_n :: "nat \<Rightarrow> nat \<Rightarrow> byte \<Rightarrow> byte list \<Rightarrow> byte list" where
  "fill_n pos 0 data xs = xs"
| "fill_n pos (Suc n) data xs = fill_n (Suc pos) n data (xs[pos := data])"

fun generate_n :: "nat \<Rightarrow> nat \<Rightarrow> state \<Rightarrow> error + state" where
  "generate_n pos 0 st = Inr st"
| "generate_n pos (Suc n) st =
     (case get_next_block_character st of
        Inl e \<Rightarrow> Inl e
      | Inr (ch, st') \<Rightarrow> generate_n (Suc pos) n (st'\<lparr>line := (line st')[pos := ch]\<rparr>))"

text \<open>
  Lines 98-103 and 118-123, the same in both edits: the line grows to \<open>end\<close> when the
  edit ends past it, and the edit is refused when that is more than \<open>MAX_LINE_SIZE\<close>.
\<close>

definition grow_line :: "nat \<Rightarrow> state \<Rightarrow> error + state" where
  "grow_line end st =
     (if end > length (line st) then
        if end > MAX_LINE_SIZE then Inl Line_overflow
        else Inr (st\<lparr>line := resize end (line st)\<rparr>)
      else Inr st)"

text \<open>
  The statement \<open>if (x == full) x += read_overflow(next_character);\<close> that both
  edits apply to their \<open>offset\<close> (lines 90-91, 111-112) and their \<open>count\<close>
  (lines 93-94, 114-115). \<open>x\<close> is a \<open>uint16_t\<close>: the sum is cut to 16 bits.
\<close>

definition add_overflow :: "16 word \<Rightarrow> 16 word \<Rightarrow> state \<Rightarrow> error + 16 word \<times> state" where
  "add_overflow x full st =
     (if x = full then
        (case read_overflow st of
           Inl e \<Rightarrow> Inl e
         | Inr (acc, st') \<Rightarrow> Inr (x + ucast acc, st'))
      else Inr (x, st))"

text \<open>
  \<open>read_repeat\<close> (lines 88-107). \<open>repeat_fields\<close> is its first part (lines 89-96):
  the 16-bit \<open>offset\<close> and \<open>count\<close> and the \<open>data\<close> byte.
\<close>

definition repeat_fields ::
  "byte \<Rightarrow> state \<Rightarrow> error + 16 word \<times> 16 word \<times> byte \<times> state" where
  "repeat_fields cmd st =
     (case add_overflow (ucast (drop_bit 5 cmd AND 3)) 3 st of
        Inl e \<Rightarrow> Inl e
      | Inr (offset, st1) \<Rightarrow>
          (case add_overflow (ucast (cmd AND 31)) 31 st1 of
             Inl e \<Rightarrow> Inl e
           | Inr (count, st2) \<Rightarrow>
               (case get_next_block_character st2 of
                  Inl e \<Rightarrow> Inl e
                | Inr (data, st3) \<Rightarrow> Inr (offset, count + 2, data, st3))))"

definition read_repeat :: "byte \<Rightarrow> state \<Rightarrow> error + state" where
  "read_repeat cmd st =
     (case repeat_fields cmd st of
        Inl e \<Rightarrow> Inl e
      | Inr (offset, count, data, st1) \<Rightarrow>
          (case grow_line (line_offset st1 + unat offset + unat count) st1 of
             Inl e \<Rightarrow> Inl e
           | Inr st2 \<Rightarrow>
               let pos = line_offset st2 + unat offset in
               Inr (st2\<lparr>line := fill_n pos (unat count) data (line st2),
                        line_offset := pos + unat count\<rparr>)))"

text \<open>
  \<open>read_substitute\<close> (lines 109-127), with \<open>substitute_fields\<close> for lines 110-116.
\<close>

definition substitute_fields ::
  "byte \<Rightarrow> state \<Rightarrow> error + 16 word \<times> 16 word \<times> state" where
  "substitute_fields cmd st =
     (case add_overflow (ucast (drop_bit 3 cmd AND 15)) 15 st of
        Inl e \<Rightarrow> Inl e
      | Inr (offset, st1) \<Rightarrow>
          (case add_overflow (ucast (cmd AND 7)) 7 st1 of
             Inl e \<Rightarrow> Inl e
           | Inr (count, st2) \<Rightarrow> Inr (offset, count + 1, st2)))"

definition read_substitute :: "byte \<Rightarrow> state \<Rightarrow> error + state" where
  "read_substitute cmd st =
     (case substitute_fields cmd st of
        Inl e \<Rightarrow> Inl e
      | Inr (offset, count, st1) \<Rightarrow>
          (case grow_line (line_offset st1 + unat offset + unat count) st1 of
             Inl e \<Rightarrow> Inl e
           | Inr st2 \<Rightarrow>
               let pos = line_offset st2 + unat offset in
               (case generate_n pos (unat count) st2 of
                  Inl e \<Rightarrow> Inl e
                | Inr st3 \<Rightarrow> Inr (st3\<lparr>line_offset := pos + unat count\<rparr>))))"

text \<open>
  \<open>read_edit\<close> (lines 129-136): \<open>cmd\<close> is an \<open>int8_t\<close>, negative when its top bit is set.
\<close>

definition read_edit :: "state \<Rightarrow> error + state" where
  "read_edit st =
     (case get_next_block_character st of
        Inl e \<Rightarrow> Inl e
      | Inr (cmd, st') \<Rightarrow>
          if sint cmd < 0 then read_repeat cmd st' else read_substitute cmd st')"

text \<open>
  \<open>read_line\<close> (lines 138-149); \<open>read_edits n\<close> is its for loop with \<open>n\<close> turns left.
\<close>

fun read_edits :: "nat \<Rightarrow> state \<Rightarrow> error + state" where
  "read_edits 0 st = Inr st"
| "read_edits (Suc n) st =
     (case read_edit st of
        Inl e \<Rightarrow> Inl e
      | Inr st' \<Rightarrow> read_edits n st')"

definition read_line :: "state \<Rightarrow> error + state" where
  "read_line st =
     (case get_next_block_character st of
        Inl e \<Rightarrow> Inl e
      | Inr (num_edits, st1) \<Rightarrow>
          (case (if num_edits = 255 then Inr (st1\<lparr>line := []\<rparr>)
                 else read_edits (unat num_edits) (st1\<lparr>line_offset := 0\<rparr>)) of
             Inl e \<Rightarrow> Inl e
           | Inr st2 \<Rightarrow> Inr (st2\<lparr>page := page st2 @ [line st2]\<rparr>)))"

text \<open>
  \<open>read_block\<close> (lines 151-157); \<open>read_lines n\<close> is its for loop with \<open>n\<close> turns left.
\<close>

fun read_lines :: "nat \<Rightarrow> state \<Rightarrow> error + state" where
  "read_lines 0 st = Inr st"
| "read_lines (Suc n) st =
     (case read_line st of
        Inl e \<Rightarrow> Inl e
      | Inr st' \<Rightarrow> read_lines n st')"

definition read_block :: "state \<Rightarrow> error + state" where
  "read_block st =
     (case get_next_block_character st of
        Inl e \<Rightarrow> Inl e
      | Inr (hi, st1) \<Rightarrow>
          (case get_next_block_character st1 of
             Inl e \<Rightarrow> Inl e
           | Inr (lo, st2) \<Rightarrow>
               let count = (ucast hi :: 32 word) * 256 + ucast lo in
               read_lines (unat count) st2))"

text \<open>
  The drain loop of lines 201-203: \<open>for (; number > 0; number--) get();\<close>.
\<close>

function drain :: "state \<Rightarrow> error + state" where
  "drain st =
     (if number st > 0 then
        (case get st of
           Inl e \<Rightarrow> Inl e
         | Inr (ch, st') \<Rightarrow> drain (st'\<lparr>number := number st' - 1\<rparr>))
      else Inr st)"
  by pat_completeness auto

text \<open>
  The branch of \<open>read_page\<close> for \<open>w\<close> and \<open>W\<close> (lines 187-204): the block is decoded
  through the closure when the format is 1030; bytes of the block that the decoder
  left are reported and skipped.
\<close>

definition graphics_data :: "state \<Rightarrow> error + state" where
  "graphics_data st =
     (case (if format st = 1030 then read_block st
            else Inl (Unsupported_compression (format st))) of
        Inl e \<Rightarrow> Inl e
      | Inr st1 \<Rightarrow>
          if number st1 > 0 then drain (st1\<lparr>warnings := warnings st1 @ [number st1]\<rparr>)
          else Inr st1)"

text \<open>
  The body of the while loop of \<open>read_page\<close> (lines 170-213) for a byte \<open>ch\<close> that is
  not a form feed; \<open>ch\<close> is already taken from \<open>in_file\<close>. The characters are
  \<open>033 = 0x1B\<close> (ESC), \<open>'*' = 0x2A\<close>, \<open>'b' = 0x62\<close>, \<open>'0' = 0x30\<close>, \<open>'9' = 0x39\<close>,
  \<open>'m' = 0x6D\<close>, \<open>'M' = 0x4D\<close>, \<open>'w' = 0x77\<close>, \<open>'W' = 0x57\<close>, \<open>'`' = 0x60\<close>,
  \<open>'~' = 0x7E\<close>, \<open>'@' = 0x40\<close>, \<open>'^' = 0x5E\<close> and \<open>'\f' = 0x0C\<close>.
\<close>

definition read_page_body :: "byte \<Rightarrow> state \<Rightarrow> error + state" where
  "read_page_body ch st =
     (if ch = 0x1B then
        (case get st of
           Inl e \<Rightarrow> Inl e
         | Inr (ch1, st1) \<Rightarrow>
             (case get st1 of
                Inl e \<Rightarrow> Inl e
              | Inr (ch2, st2) \<Rightarrow>
                  if ch1 = 0x2A \<and> ch2 = 0x62
                  then Inr (st2\<lparr>in_raster := True, number := 0\<rparr>)
                  else Inr st2))
      else if in_raster st then
        (case (if 0x30 \<le> ch \<and> ch \<le> 0x39
                 then Inr (st\<lparr>number := number st * 10 + (ucast ch - 0x30)\<rparr>)
               else if ch = 0x6D \<or> ch = 0x4D
                 then Inr (st\<lparr>format := number st\<rparr>)
               else if ch = 0x77 \<or> ch = 0x57
                 then graphics_data st
               else Inr st) of
           Inl e \<Rightarrow> Inl e
         | Inr st1 \<Rightarrow>
             if 0x60 \<le> ch \<and> ch \<le> 0x7E then Inr (st1\<lparr>number := 0\<rparr>)
             else if 0x40 \<le> ch \<and> ch \<le> 0x5E then Inr (st1\<lparr>in_raster := False\<rparr>)
             else Inr st1)
      else Inr st)"

text \<open>
  The while loop of \<open>read_page\<close> (lines 167-214): it ends at the end of the input and
  at a form feed.
\<close>

function read_page_loop :: "state \<Rightarrow> error + state" where
  "read_page_loop st =
     (case in_file st of
        [] \<Rightarrow> Inr st
      | ch # rest \<Rightarrow>
          if ch = 0x0C then Inr (st\<lparr>in_file := rest\<rparr>)
          else
            (case read_page_body ch (st\<lparr>in_file := rest\<rparr>) of
               Inl e \<Rightarrow> Inl e
             | Inr st' \<Rightarrow> read_page_loop st'))"
  by pat_completeness auto

text \<open>
  \<open>read_page\<close> (lines 159-216). \<open>number\<close> has no initial value in the source; it keeps
  the value of the state here, and is not read before ESC * b has set it.
\<close>

definition read_page :: "state \<Rightarrow> error + bool \<times> state" where
  "read_page st =
     (case read_page_loop (st\<lparr>in_raster := False, format := 0, page := [], line := []\<rparr>) of
        Inl e \<Rightarrow> Inl e
      | Inr st' \<Rightarrow> Inr (page st' \<noteq> [], st'))"

text \<open>
  The loop of \<open>main\<close> (lines 264-282): every page that \<open>read_page\<close> reports is handed
  to \<open>write_pnm\<close>, until \<open>read_page\<close> returns false or throws. The result is the list
  of the pages written and the exception caught, if any (exit status 1).
\<close>

function main_loop :: "state \<Rightarrow> byte list list list \<times> error option" where
  "main_loop st =
     (case read_page st of
        Inl e \<Rightarrow> ([], Some e)
      | Inr (nonempty, st') \<Rightarrow>
          if nonempty then (case main_loop st' of (pages, r) \<Rightarrow> (page st' # pages, r))
          else ([], None))"
  by pat_completeness auto

text \<open>
  The state at the start of \<open>main\<close>: the globals are empty and zero, the input is
  unread. The locals of \<open>read_page\<close> are set by \<open>read_page\<close>.
\<close>

definition initial :: "byte list \<Rightarrow> state" where
  "initial input =
     \<lparr>in_file = input, page = [], line = [], line_offset = 0,
      in_raster = False, number = 0, format = 0, warnings = []\<rparr>"

definition main :: "byte list \<Rightarrow> byte list list list \<times> error option" where
  "main input = main_loop (initial input)"

subsection \<open>Predicates of the statements\<close>

text \<open>
  \<open>consumed k st st'\<close>: from \<open>st\<close> to \<open>st'\<close> exactly \<open>k\<close> bytes were taken from the
  input through the block reader, all of them inside the block. \<open>block_step\<close> adds
  that the parser's own variables are untouched.
\<close>

definition consumed :: "nat \<Rightarrow> state \<Rightarrow> state \<Rightarrow> bool" where
  "consumed k st st' \<longleftrightarrow>
     k \<le> unat (number st) \<and> k \<le> length (in_file st) \<and>
     in_file st' = drop k (in_file st) \<and> number st' = number st - of_nat k"

definition block_step :: "state \<Rightarrow> state \<Rightarrow> bool" where
  "block_step st st' \<longleftrightarrow>
     consumed (length (in_file st) - length (in_file st')) st st' \<and>
     in_raster st' = in_raster st \<and> format st' = format st \<and>
     warnings st' = warnings st"

definition reads :: "state \<Rightarrow> state \<Rightarrow> bool" where
  "reads st st' \<longleftrightarrow>
     block_step st st' \<and> line st' = line st \<and> line_offset st' = line_offset st \<and>
     page st' = page st"

text \<open>
  The positions an edit writes: \<open>count\<close> bytes from \<open>line_offset + offset\<close> on, with
  the fields as \<open>read_edit\<close> parses them. \<open>line_spans n\<close> collects them over the
  \<open>n\<close> edits of a line. Both follow the parse of the decoder and write nothing.
\<close>

definition edit_span :: "state \<Rightarrow> nat set" where
  "edit_span st =
     (case get_next_block_character st of
        Inl e \<Rightarrow> {}
      | Inr (cmd, st1) \<Rightarrow>
          if sint cmd < 0 then
            (case repeat_fields cmd st1 of
               Inl e \<Rightarrow> {}
             | Inr (offset, count, data, st2) \<Rightarrow>
                 {line_offset st2 + unat offset ..<
                  line_offset st2 + unat offset + unat count})
          else
            (case substitute_fields cmd st1 of
               Inl e \<Rightarrow> {}
             | Inr (offset, count, st2) \<Rightarrow>
                 {line_offset st2 + unat offset ..<
                  line_offset st2 + unat offset + unat count}))"

fun line_spans :: "nat \<Rightarrow> state \<Rightarrow> nat set" where
  "line_spans 0 st = {}"
| "line_spans (Suc n) st =
     (case read_edit st of
        Inl e \<Rightarrow> {}
      | Inr st' \<Rightarrow> edit_span st \<union> line_spans n st')"

text \<open>
  No line of the page and of the buffer is longer than \<open>MAX_LINE_SIZE\<close>.
\<close>

definition lines_bounded :: "state \<Rightarrow> bool" where
  "lines_bounded st \<longleftrightarrow>
     length (line st) \<le> MAX_LINE_SIZE \<and>
     list_all (\<lambda>l. length l \<le> MAX_LINE_SIZE) (page st)"

text \<open>
  The state with the bytes \<open>t\<close> put after its input.
\<close>

definition more_input :: "byte list \<Rightarrow> state \<Rightarrow> state" where
  "more_input t st = st\<lparr>in_file := in_file st @ t\<rparr>"

section \<open>Termination: every read takes input\<close>

lemma get_next_block_character_in_file:
  "get_next_block_character st = Inr (ch, st') \<Longrightarrow> length (in_file st') < length (in_file st)"
  by (auto simp: get_next_block_character_def get_def split: if_splits list.splits)

termination read_overflow_loop
  by (relation "measure (\<lambda>(acc, st). length (in_file st))")
     (auto dest: get_next_block_character_in_file)

declare read_overflow_loop.simps [simp del]

lemma get_in_file:
  "get st = Inr (ch, st') \<Longrightarrow> length (in_file st') < length (in_file st)"
  by (auto simp: get_def split: list.splits)

lemma read_overflow_loop_in_file:
  "read_overflow_loop acc st = Inr (r, st') \<Longrightarrow> length (in_file st') < length (in_file st)"
proof (induction acc st rule: read_overflow_loop.induct)
  case (1 acc st)
  from "1.prems" obtain ch st1 where
    g: "get_next_block_character st = Inr (ch, st1)"
    by (subst (asm) read_overflow_loop.simps) (auto split: sum.splits)
  show ?case
  proof (cases "ch = 255")
    case True
    with "1.prems" g have "read_overflow_loop (acc + ucast ch) st1 = Inr (r, st')"
      by (subst (asm) read_overflow_loop.simps) simp
    with "1.IH" g True have "length (in_file st') < length (in_file st1)"
      by blast
    with get_next_block_character_in_file [OF g] show ?thesis by simp
  next
    case False
    with "1.prems" g have "st' = st1"
      by (subst (asm) read_overflow_loop.simps) simp
    with get_next_block_character_in_file [OF g] show ?thesis by simp
  qed
qed

lemma read_overflow_in_file:
  "read_overflow st = Inr (r, st') \<Longrightarrow> length (in_file st') < length (in_file st)"
  unfolding read_overflow_def by (rule read_overflow_loop_in_file)

lemma generate_n_in_file:
  "generate_n pos n st = Inr st' \<Longrightarrow> length (in_file st') \<le> length (in_file st)"
proof (induction n arbitrary: pos st)
  case 0
  then show ?case by simp
next
  case (Suc n)
  from Suc.prems obtain ch st1 where
    g: "get_next_block_character st = Inr (ch, st1)" and
    r: "generate_n (Suc pos) n (st1\<lparr>line := (line st1)[pos := ch]\<rparr>) = Inr st'"
    by (auto split: sum.splits)
  from Suc.IH [OF r] get_next_block_character_in_file [OF g] show ?case by simp
qed

lemma grow_line_in_file:
  "grow_line e st = Inr st' \<Longrightarrow> in_file st' = in_file st"
  by (auto simp: grow_line_def split: if_splits)

lemma add_overflow_in_file:
  "add_overflow x full st = Inr (y, st') \<Longrightarrow> length (in_file st') \<le> length (in_file st)"
  unfolding add_overflow_def
  by (auto split: sum.splits if_splits dest!: read_overflow_in_file)

lemma repeat_fields_in_file:
  "repeat_fields cmd st = Inr (offset, count, data, st') \<Longrightarrow>
   length (in_file st') < length (in_file st)"
  unfolding repeat_fields_def
  by (auto split: sum.splits
      dest!: add_overflow_in_file get_next_block_character_in_file)

lemma substitute_fields_in_file:
  "substitute_fields cmd st = Inr (offset, count, st') \<Longrightarrow>
   length (in_file st') \<le> length (in_file st)"
  unfolding substitute_fields_def
  by (auto split: sum.splits dest!: add_overflow_in_file)

lemma read_repeat_in_file:
  "read_repeat cmd st = Inr st' \<Longrightarrow> length (in_file st') < length (in_file st)"
  unfolding read_repeat_def Let_def
  by (auto split: sum.splits dest!: repeat_fields_in_file grow_line_in_file)

lemma read_substitute_in_file:
  "read_substitute cmd st = Inr st' \<Longrightarrow> length (in_file st') \<le> length (in_file st)"
  unfolding read_substitute_def Let_def
  by (auto split: sum.splits
      dest!: substitute_fields_in_file grow_line_in_file generate_n_in_file)

lemma read_edit_in_file:
  "read_edit st = Inr st' \<Longrightarrow> length (in_file st') < length (in_file st)"
  unfolding read_edit_def
  by (auto split: sum.splits if_splits
      dest!: get_next_block_character_in_file read_repeat_in_file read_substitute_in_file)

lemma read_edits_in_file:
  "read_edits n st = Inr st' \<Longrightarrow> length (in_file st') \<le> length (in_file st)"
proof (induction n arbitrary: st)
  case 0
  then show ?case by simp
next
  case (Suc n)
  from Suc.prems obtain st1 where
    e: "read_edit st = Inr st1" and r: "read_edits n st1 = Inr st'"
    by (auto split: sum.splits)
  from Suc.IH [OF r] read_edit_in_file [OF e] show ?case by simp
qed

lemma read_line_in_file:
  "read_line st = Inr st' \<Longrightarrow> length (in_file st') < length (in_file st)"
  unfolding read_line_def
  by (auto split: sum.splits if_splits
      dest!: get_next_block_character_in_file read_edits_in_file)

lemma read_lines_in_file:
  "read_lines n st = Inr st' \<Longrightarrow> length (in_file st') \<le> length (in_file st)"
proof (induction n arbitrary: st)
  case 0
  then show ?case by simp
next
  case (Suc n)
  from Suc.prems obtain st1 where
    e: "read_line st = Inr st1" and r: "read_lines n st1 = Inr st'"
    by (auto split: sum.splits)
  from Suc.IH [OF r] read_line_in_file [OF e] show ?case by simp
qed

lemma read_block_in_file:
  "read_block st = Inr st' \<Longrightarrow> length (in_file st') < length (in_file st)"
  unfolding read_block_def Let_def
  by (auto split: sum.splits
      dest!: get_next_block_character_in_file read_lines_in_file)

termination drain
  by (relation "measure (\<lambda>st. length (in_file st))") (auto dest: get_in_file)

declare drain.simps [simp del]

lemma drain_in_file:
  "drain st = Inr st' \<Longrightarrow> length (in_file st') \<le> length (in_file st)"
proof (induction st rule: drain.induct)
  case (1 st)
  show ?case
  proof (cases "number st > 0")
    case True
    with "1.prems" obtain ch st1 where
      g: "get st = Inr (ch, st1)" and
      r: "drain (st1\<lparr>number := number st1 - 1\<rparr>) = Inr st'"
      by (subst (asm) drain.simps) (auto split: sum.splits)
    from "1.IH" [OF True g refl r] get_in_file [OF g]
    show ?thesis by simp
  next
    case False
    with "1.prems" have "st' = st"
      by (subst (asm) drain.simps) simp
    then show ?thesis by simp
  qed
qed

lemma graphics_data_in_file:
  "graphics_data st = Inr st' \<Longrightarrow> length (in_file st') < length (in_file st)"
  unfolding graphics_data_def
  by (auto split: sum.splits if_splits dest!: read_block_in_file drain_in_file)

lemma read_page_body_in_file:
  "read_page_body ch st = Inr st' \<Longrightarrow> length (in_file st') \<le> length (in_file st)"
  unfolding read_page_body_def
  by (auto split: sum.splits if_splits dest!: get_in_file graphics_data_in_file)

termination read_page_loop
  by (relation "measure (\<lambda>st. length (in_file st))")
     (auto dest!: read_page_body_in_file)

declare read_page_loop.simps [simp del]

lemma read_page_loop_in_file:
  "read_page_loop st = Inr st' \<Longrightarrow> length (in_file st') \<le> length (in_file st)"
proof (induction st rule: read_page_loop.induct)
  case (1 st)
  show ?case
  proof (cases "in_file st")
    case Nil
    with "1.prems" have "st' = st"
      by (subst (asm) read_page_loop.simps) simp
    then show ?thesis by simp
  next
    case (Cons ch rest)
    show ?thesis
    proof (cases "ch = 0x0C")
      case True
      with "1.prems" Cons have "st' = st\<lparr>in_file := rest\<rparr>"
        by (subst (asm) read_page_loop.simps) simp
      with Cons show ?thesis by simp
    next
      case False
      with "1.prems" Cons obtain st1 where
        b: "read_page_body ch (st\<lparr>in_file := rest\<rparr>) = Inr st1" and
        r: "read_page_loop st1 = Inr st'"
        by (subst (asm) read_page_loop.simps) (auto split: sum.splits)
      from "1.IH" [OF Cons False b r] read_page_body_in_file [OF b] Cons
      show ?thesis by simp
    qed
  qed
qed

lemma read_page_loop_progress:
  assumes "read_page_loop st = Inr st'" and "in_file st \<noteq> []"
  shows "length (in_file st') < length (in_file st)"
proof -
  from assms(2) obtain ch rest where c: "in_file st = ch # rest"
    by (cases "in_file st") auto
  show ?thesis
  proof (cases "ch = 0x0C")
    case True
    with assms(1) c have "st' = st\<lparr>in_file := rest\<rparr>"
      by (subst (asm) read_page_loop.simps) simp
    with c show ?thesis by simp
  next
    case False
    with assms(1) c obtain st1 where
      b: "read_page_body ch (st\<lparr>in_file := rest\<rparr>) = Inr st1" and
      r: "read_page_loop st1 = Inr st'"
      by (subst (asm) read_page_loop.simps) (auto split: sum.splits)
    from read_page_loop_in_file [OF r] read_page_body_in_file [OF b] c
    show ?thesis by simp
  qed
qed

lemma read_page_more_in_file:
  assumes "read_page st = Inr (True, st')"
  shows "length (in_file st') < length (in_file st)"
proof -
  let ?st0 = "st\<lparr>in_raster := False, format := 0, page := [], line := []\<rparr>"
  from assms have l: "read_page_loop ?st0 = Inr st'" and p: "page st' \<noteq> []"
    by (auto simp: read_page_def split: sum.splits)
  have "in_file ?st0 \<noteq> []"
  proof
    assume "in_file ?st0 = []"
    then have "read_page_loop ?st0 = Inr ?st0"
      by (subst read_page_loop.simps) simp
    with l have "st' = ?st0" by simp
    then have "page st' = []" by simp
    with p show False by contradiction
  qed
  from read_page_loop_progress [OF l this] show ?thesis by simp
qed

termination main_loop
  by (relation "measure (\<lambda>st. length (in_file st))")
     (auto dest!: read_page_more_in_file)

declare main_loop.simps [simp del]

section \<open>Runs of 0xFF\<close>

lemma unat_byte_less: "unat (v :: byte) < 256"
  using unsigned_less [of v, where 'a = nat] by simp

lemma unat_ucast_byte: "unat (ucast (v :: byte) :: 32 word) = unat v"
  using unat_byte_less [of v] by (simp add: unsigned_ucast_eq take_bit_nat_eq_self)



lemma get_next_block_character_Cons:
  "in_file st = ch # rest \<Longrightarrow> number st \<noteq> 0 \<Longrightarrow>
   get_next_block_character st = Inr (ch, st\<lparr>in_file := rest, number := number st - 1\<rparr>)"
  by (simp add: get_next_block_character_def get_def)

lemma read_overflow_loop_run:
  "in_file st = replicate k 255 @ v # rest \<Longrightarrow> v \<noteq> 255 \<Longrightarrow> k < unat (number st) \<Longrightarrow>
   read_overflow_loop acc st =
     Inr (acc + of_nat (255 * k + unat v),
          st\<lparr>in_file := rest, number := number st - of_nat (Suc k)\<rparr>)"
proof (induction k arbitrary: acc st)
  case 0
  then have n: "number st \<noteq> 0" by (auto simp: unat_gt_0)
  from 0 have i: "in_file st = v # rest" by simp
  show ?case
    using \<open>v \<noteq> 255\<close>
    by (subst read_overflow_loop.simps)
       (simp add: get_next_block_character_Cons [OF i n])
next
  case (Suc k)
  then have n: "number st \<noteq> 0" by (auto simp: unat_gt_0)
  from Suc.prems have i: "in_file st = 255 # (replicate k 255 @ v # rest)" by simp
  let ?st1 = "st\<lparr>in_file := replicate k 255 @ v # rest, number := number st - 1\<rparr>"
  from Suc.prems n have k: "k < unat (number ?st1)"
    by (simp add: unat_minus_one)
  have "read_overflow_loop acc st = read_overflow_loop (acc + 255) ?st1"
    by (subst read_overflow_loop.simps)
       (simp add: get_next_block_character_Cons [OF i n])
  also have "\<dots> = Inr (acc + 255 + of_nat (255 * k + unat v),
      ?st1\<lparr>in_file := rest, number := number ?st1 - of_nat (Suc k)\<rparr>)"
    by (rule Suc.IH [OF _ Suc.prems(2) k]) simp
  finally show ?case by (simp add: algebra_simps)
qed

section \<open>What the raster decoder reads and leaves\<close>

lemma unat_minus_of_nat:
  fixes w :: "32 word"
  assumes "k \<le> unat w"
  shows "unat (w - of_nat k) = unat w - k"
proof -
  have "unat w < 2 ^ 32" using unsigned_less [of w, where 'a = nat] by simp
  with assms have k: "unat (of_nat k :: 32 word) = k"
    by (simp add: unat_of_nat)
  with assms have "(of_nat k :: 32 word) \<le> w"
    by (simp add: word_le_nat_alt)
  then show ?thesis using k by (simp add: unat_sub)
qed

lemma consumed_refl: "consumed 0 st st"
  by (simp add: consumed_def)

lemma consumed_trans:
  assumes "consumed j st st1" and "consumed k st1 st2"
  shows "consumed (j + k) st st2"
  using assms unat_minus_of_nat [of j "number st"]
  by (auto simp: consumed_def add.commute)

lemma get_next_block_character_consumed:
  "get_next_block_character st = Inr (ch, st') \<Longrightarrow> consumed 1 st st'"
  by (auto simp: get_next_block_character_def get_def consumed_def unat_gt_0 Suc_le_eq
      split: if_splits list.splits)

lemma get_next_block_character_Inr:
  "get_next_block_character st = Inr (ch, st') \<longleftrightarrow>
     number st \<noteq> 0 \<and>
     (\<exists>rest. in_file st = ch # rest \<and> st' = st\<lparr>in_file := rest, number := number st - 1\<rparr>)"
  by (auto simp: get_next_block_character_def get_def split: list.splits)

lemma read_overflow_loop_consumed:
  "read_overflow_loop acc st = Inr (r, st') \<Longrightarrow> \<exists>k. consumed k st st'"
proof (induction acc st rule: read_overflow_loop.induct)
  case (1 acc st)
  from "1.prems" obtain ch st1 where
    g: "get_next_block_character st = Inr (ch, st1)"
    by (subst (asm) read_overflow_loop.simps) (auto split: sum.splits)
  show ?case
  proof (cases "ch = 255")
    case True
    with "1.prems" g have "read_overflow_loop (acc + ucast ch) st1 = Inr (r, st')"
      by (subst (asm) read_overflow_loop.simps) simp
    with "1.IH" g True obtain k where "consumed k st1 st'"
      by blast
    with get_next_block_character_consumed [OF g] show ?thesis
      by (blast intro: consumed_trans)
  next
    case False
    with "1.prems" g have "st' = st1"
      by (subst (asm) read_overflow_loop.simps) simp
    with get_next_block_character_consumed [OF g] show ?thesis by blast
  qed
qed

lemma read_overflow_consumed:
  "read_overflow st = Inr (r, st') \<Longrightarrow> \<exists>k. consumed k st st'"
  unfolding read_overflow_def by (rule read_overflow_loop_consumed)

lemma consumed_length: "consumed k st st' \<Longrightarrow> k = length (in_file st) - length (in_file st')"
  by (auto simp: consumed_def)

lemma block_step_iff:
  "block_step st st' \<longleftrightarrow>
     (\<exists>k. consumed k st st') \<and> in_raster st' = in_raster st \<and>
     format st' = format st \<and> warnings st' = warnings st"
  unfolding block_step_def using consumed_length by blast

lemma block_step_refl: "block_step st st"
  by (simp add: block_step_def consumed_refl)

lemma block_step_trans: "block_step st st1 \<Longrightarrow> block_step st1 st2 \<Longrightarrow> block_step st st2"
  unfolding block_step_iff by (auto intro: consumed_trans)

lemma block_step_update [simp]:
  "block_step st (st'\<lparr>line := l\<rparr>) = block_step st st'"
  "block_step st (st'\<lparr>line_offset := n\<rparr>) = block_step st st'"
  "block_step st (st'\<lparr>page := p\<rparr>) = block_step st st'"
  "block_step (st\<lparr>line := l\<rparr>) st' = block_step st st'"
  "block_step (st\<lparr>line_offset := n\<rparr>) st' = block_step st st'"
  "block_step (st\<lparr>page := p\<rparr>) st' = block_step st st'"
  by (simp_all add: block_step_def consumed_def)

lemma get_next_block_character_step:
  assumes "get_next_block_character st = Inr (ch, st')"
  shows "block_step st st'"
proof -
  from get_next_block_character_consumed [OF assms] have "\<exists>k. consumed k st st'"
    by blast
  moreover from assms have
    "in_raster st' = in_raster st \<and> format st' = format st \<and> warnings st' = warnings st"
    by (auto simp: get_next_block_character_Inr)
  ultimately show ?thesis by (simp add: block_step_iff)
qed

lemma read_overflow_loop_step:
  "read_overflow_loop acc st = Inr (r, st') \<Longrightarrow> block_step st st'"
proof (induction acc st rule: read_overflow_loop.induct)
  case (1 acc st)
  from "1.prems" obtain ch st1 where
    g: "get_next_block_character st = Inr (ch, st1)"
    by (subst (asm) read_overflow_loop.simps) (auto split: sum.splits)
  show ?case
  proof (cases "ch = 255")
    case True
    with "1.prems" g have "read_overflow_loop (acc + ucast ch) st1 = Inr (r, st')"
      by (subst (asm) read_overflow_loop.simps) simp
    with "1.IH" g True have "block_step st1 st'"
      by blast
    with get_next_block_character_step [OF g] show ?thesis
      by (blast intro: block_step_trans)
  next
    case False
    with "1.prems" g have "st' = st1"
      by (subst (asm) read_overflow_loop.simps) simp
    with get_next_block_character_step [OF g] show ?thesis by blast
  qed
qed

lemma read_overflow_step:
  "read_overflow st = Inr (r, st') \<Longrightarrow> block_step st st'"
  unfolding read_overflow_def by (rule read_overflow_loop_step)

lemma generate_n_step:
  "generate_n pos n st = Inr st' \<Longrightarrow> block_step st st'"
proof (induction n arbitrary: pos st)
  case 0
  then show ?case by (simp add: block_step_refl)
next
  case (Suc n)
  from Suc.prems obtain ch st1 where
    g: "get_next_block_character st = Inr (ch, st1)" and
    r: "generate_n (Suc pos) n (st1\<lparr>line := (line st1)[pos := ch]\<rparr>) = Inr st'"
    by (auto split: sum.splits)
  from Suc.IH [OF r] have "block_step st1 st'" by simp
  with get_next_block_character_step [OF g] show ?case
    by (rule block_step_trans)
qed

lemma grow_line_step: "grow_line e st = Inr st' \<Longrightarrow> block_step st st'"
  by (auto simp: grow_line_def block_step_refl split: if_splits)

lemma add_overflow_step:
  assumes "add_overflow x full st = Inr (y, st')"
  shows "block_step st st'"
proof (cases "x = full")
  case True
  with assms obtain acc where "read_overflow st = Inr (acc, st')"
    by (auto simp: add_overflow_def split: sum.splits)
  then show ?thesis by (rule read_overflow_step)
next
  case False
  with assms have "st' = st" by (simp add: add_overflow_def)
  then show ?thesis by (simp add: block_step_refl)
qed

lemma repeat_fields_step:
  assumes "repeat_fields cmd st = Inr (offset, count, data, st')"
  shows "block_step st st'"
proof -
  from assms obtain off st1 cnt st2 where
    a: "add_overflow (ucast (drop_bit 5 cmd AND 3)) 3 st = Inr (off, st1)" and
    b: "add_overflow (ucast (cmd AND 31)) 31 st1 = Inr (cnt, st2)" and
    c: "get_next_block_character st2 = Inr (data, st')"
    by (auto simp: repeat_fields_def split: sum.splits)
  from add_overflow_step [OF a] add_overflow_step [OF b]
    get_next_block_character_step [OF c]
  show ?thesis by (blast intro: block_step_trans)
qed

lemma substitute_fields_step:
  assumes "substitute_fields cmd st = Inr (offset, count, st')"
  shows "block_step st st'"
proof -
  from assms obtain off st1 cnt where
    a: "add_overflow (ucast (drop_bit 3 cmd AND 15)) 15 st = Inr (off, st1)" and
    b: "add_overflow (ucast (cmd AND 7)) 7 st1 = Inr (cnt, st')"
    by (auto simp: substitute_fields_def split: sum.splits)
  from add_overflow_step [OF a] add_overflow_step [OF b]
  show ?thesis by (rule block_step_trans)
qed

lemma read_repeat_step:
  assumes "read_repeat cmd st = Inr st'"
  shows "block_step st st'"
proof -
  from assms obtain offset count data st1 st2 where
    a: "repeat_fields cmd st = Inr (offset, count, data, st1)" and
    b: "grow_line (line_offset st1 + unat offset + unat count) st1 = Inr st2" and
    c: "st' = st2\<lparr>line := fill_n (line_offset st2 + unat offset) (unat count) data (line st2),
          line_offset := line_offset st2 + unat offset + unat count\<rparr>"
    by (auto simp: read_repeat_def Let_def split: sum.splits)
  from repeat_fields_step [OF a] grow_line_step [OF b]
  have "block_step st st2" by (rule block_step_trans)
  with c show ?thesis by simp
qed

lemma read_substitute_step:
  assumes "read_substitute cmd st = Inr st'"
  shows "block_step st st'"
proof -
  from assms obtain offset count st1 st2 st3 where
    a: "substitute_fields cmd st = Inr (offset, count, st1)" and
    b: "grow_line (line_offset st1 + unat offset + unat count) st1 = Inr st2" and
    c: "generate_n (line_offset st2 + unat offset) (unat count) st2 = Inr st3" and
    d: "st' = st3\<lparr>line_offset := line_offset st2 + unat offset + unat count\<rparr>"
    by (auto simp: read_substitute_def Let_def split: sum.splits)
  from substitute_fields_step [OF a] grow_line_step [OF b] generate_n_step [OF c]
  have "block_step st st3" by (blast intro: block_step_trans)
  with d show ?thesis by simp
qed

lemma read_edit_step:
  assumes "read_edit st = Inr st'"
  shows "block_step st st'"
proof -
  from assms obtain cmd st1 where
    a: "get_next_block_character st = Inr (cmd, st1)" and
    b: "(if sint cmd < 0 then read_repeat cmd st1 else read_substitute cmd st1) = Inr st'"
    by (auto simp: read_edit_def split: sum.splits)
  from b have "block_step st1 st'"
    by (auto split: if_splits intro: read_repeat_step read_substitute_step)
  with get_next_block_character_step [OF a] show ?thesis
    by (rule block_step_trans)
qed

lemma read_edits_step: "read_edits n st = Inr st' \<Longrightarrow> block_step st st'"
proof (induction n arbitrary: st)
  case 0
  then show ?case by (simp add: block_step_refl)
next
  case (Suc n)
  from Suc.prems obtain st1 where
    e: "read_edit st = Inr st1" and r: "read_edits n st1 = Inr st'"
    by (auto split: sum.splits)
  from read_edit_step [OF e] Suc.IH [OF r] show ?case
    by (rule block_step_trans)
qed

lemma read_line_step:
  assumes "read_line st = Inr st'"
  shows "block_step st st'"
proof -
  from assms obtain num_edits st1 st2 where
    a: "get_next_block_character st = Inr (num_edits, st1)" and
    b: "(if num_edits = 255 then Inr (st1\<lparr>line := []\<rparr>)
         else read_edits (unat num_edits) (st1\<lparr>line_offset := 0\<rparr>)) = Inr st2" and
    c: "st' = st2\<lparr>page := page st2 @ [line st2]\<rparr>"
    by (auto simp: read_line_def split: sum.splits)
  from b have "block_step st1 st2"
    by (auto split: if_splits simp: block_step_refl dest: read_edits_step)
  with get_next_block_character_step [OF a] have "block_step st st2"
    by (rule block_step_trans)
  with c show ?thesis by simp
qed

lemma read_lines_step: "read_lines n st = Inr st' \<Longrightarrow> block_step st st'"
proof (induction n arbitrary: st)
  case 0
  then show ?case by (simp add: block_step_refl)
next
  case (Suc n)
  from Suc.prems obtain st1 where
    e: "read_line st = Inr st1" and r: "read_lines n st1 = Inr st'"
    by (auto split: sum.splits)
  from read_line_step [OF e] Suc.IH [OF r] show ?case
    by (rule block_step_trans)
qed

lemma read_block_step:
  assumes "read_block st = Inr st'"
  shows "block_step st st'"
proof -
  from assms obtain hi st1 lo st2 where
    a: "get_next_block_character st = Inr (hi, st1)" and
    b: "get_next_block_character st1 = Inr (lo, st2)" and
    c: "read_lines (unat ((ucast hi :: 32 word) * 256 + ucast lo)) st2 = Inr st'"
    by (auto simp: read_block_def Let_def split: sum.splits)
  from get_next_block_character_step [OF a] get_next_block_character_step [OF b]
    read_lines_step [OF c]
  show ?thesis by (blast intro: block_step_trans)
qed

lemma consumed_number:
  "consumed k st st' \<Longrightarrow> unat (number st') = unat (number st) - k"
  by (simp add: consumed_def unat_minus_of_nat)

lemma drain_eq:
  "drain st =
     (if unat (number st) \<le> length (in_file st)
      then Inr (st\<lparr>in_file := drop (unat (number st)) (in_file st), number := 0\<rparr>)
      else Inl Unexpected_eof)"
proof (induction n \<equiv> "unat (number st)" arbitrary: st)
  case 0
  then have z: "number st = 0" by (simp add: unat_eq_0)
  then have "drain st = Inr st"
    by (subst drain.simps) simp
  moreover from z have "st\<lparr>in_file := drop (unat (number st)) (in_file st), number := 0\<rparr> = st"
    by (cases st) simp
  ultimately show ?case using z by simp
next
  case (Suc n)
  then have p: "number st > 0" by (simp add: word_greater_zero_iff unat_gt_0 [symmetric])
  show ?case
  proof (cases "in_file st")
    case Nil
    with p Suc.hyps(2) show ?thesis
      by (subst drain.simps) (simp add: get_def)
  next
    case (Cons ch rest)
    let ?st1 = "st\<lparr>in_file := rest, number := number st - 1\<rparr>"
    from p have nz: "number st \<noteq> 0" by auto
    from Suc.hyps(2) nz have n: "n = unat (number ?st1)"
      by (simp add: unat_minus_one)
    from p Cons have "drain st = drain ?st1"
      by (subst drain.simps) (simp add: get_def)
    also note Suc.hyps(1) [OF n]
    finally have d: "drain st =
        (if unat (number ?st1) \<le> length (in_file ?st1)
         then Inr (?st1\<lparr>in_file := drop (unat (number ?st1)) (in_file ?st1), number := 0\<rparr>)
         else Inl Unexpected_eof)" .
    from Suc.hyps(2) n have e: "unat (number st) = Suc (unat (number st - 1))"
      by simp
    show ?thesis
      by (simp add: d Cons e)
  qed
qed

lemma graphics_data_leftover:
  assumes "format st = 1030" and "read_block st = Inr st1" and "number st1 \<noteq> 0"
  shows "graphics_data st =
     (if unat (number st1) \<le> length (in_file st1)
      then Inr (st1\<lparr>in_file := drop (unat (number st1)) (in_file st1), number := 0,
                     warnings := warnings st @ [number st1]\<rparr>)
      else Inl Unexpected_eof)"
proof -
  from read_block_step [OF assms(2)] have w: "warnings st1 = warnings st"
    by (simp add: block_step_def)
  from assms(3) have "number st1 > 0" by (simp add: word_greater_zero_iff)
  with assms(1,2) have "graphics_data st = drain (st1\<lparr>warnings := warnings st1 @ [number st1]\<rparr>)"
    by (simp add: graphics_data_def)
  then show ?thesis by (simp add: drain_eq w)
qed

lemma graphics_data_exact:
  assumes "graphics_data st = Inr st'"
  shows "unat (number st) \<le> length (in_file st) \<and>
     in_file st' = drop (unat (number st)) (in_file st) \<and> number st' = 0"
proof -
  from assms obtain st1 where
    f: "format st = 1030" and b: "read_block st = Inr st1"
    by (auto simp: graphics_data_def split: sum.splits if_splits)
  from read_block_step [OF b] obtain k where k: "consumed k st st1"
    by (auto simp: block_step_iff)
  note n = consumed_number [OF k]
  from k have kk: "k \<le> unat (number st)" "k \<le> length (in_file st)"
    "in_file st1 = drop k (in_file st)"
    by (simp_all add: consumed_def)
  show ?thesis
  proof (cases "number st1 = 0")
    case True
    with assms f b have "st' = st1"
      by (simp add: graphics_data_def)
    moreover from True n kk(1) have "k = unat (number st)" by simp
    ultimately show ?thesis using kk True by simp
  next
    case False
    from assms graphics_data_leftover [OF f b False]
    have l: "unat (number st1) \<le> length (in_file st1)" and
      s: "st' = st1\<lparr>in_file := drop (unat (number st1)) (in_file st1), number := 0,
            warnings := warnings st @ [number st1]\<rparr>"
      by (auto split: if_splits)
    from l n kk show ?thesis by (simp add: s)
  qed
qed

section \<open>The wrapper parser\<close>

lemma graphics_data_parser:
  assumes "graphics_data st = Inr st'"
  shows "in_raster st' = in_raster st \<and> format st' = format st"
proof -
  from assms obtain st1 where
    f: "format st = 1030" and b: "read_block st = Inr st1"
    by (auto simp: graphics_data_def split: sum.splits if_splits)
  from read_block_step [OF b] have p: "in_raster st1 = in_raster st" "format st1 = format st"
    by (simp_all add: block_step_def)
  show ?thesis
  proof (cases "number st1 = 0")
    case True
    with assms f b have "st' = st1" by (simp add: graphics_data_def)
    with p show ?thesis by simp
  next
    case False
    from assms graphics_data_leftover [OF f b False] p show ?thesis
      by (auto split: if_splits)
  qed
qed

lemma main_loop_error: "read_page st = Inl e \<Longrightarrow> main_loop st = ([], Some e)"
  by (subst main_loop.simps) simp


section \<open>Pages and the loop of main\<close>







section \<open>What an edit does to the line\<close>

lemma reads_refl: "reads st st"
  by (simp add: reads_def block_step_refl)

lemma reads_trans: "reads st st1 \<Longrightarrow> reads st1 st2 \<Longrightarrow> reads st st2"
  by (auto simp: reads_def intro: block_step_trans)

lemma get_next_block_character_reads:
  assumes "get_next_block_character st = Inr (ch, st')"
  shows "reads st st'"
  using get_next_block_character_step [OF assms] assms
  by (auto simp: reads_def get_next_block_character_Inr)

lemma read_overflow_loop_reads:
  "read_overflow_loop acc st = Inr (r, st') \<Longrightarrow> reads st st'"
proof (induction acc st rule: read_overflow_loop.induct)
  case (1 acc st)
  from "1.prems" obtain ch st1 where
    g: "get_next_block_character st = Inr (ch, st1)"
    by (subst (asm) read_overflow_loop.simps) (auto split: sum.splits)
  show ?case
  proof (cases "ch = 255")
    case True
    with "1.prems" g have "read_overflow_loop (acc + ucast ch) st1 = Inr (r, st')"
      by (subst (asm) read_overflow_loop.simps) simp
    with "1.IH" g True have "reads st1 st'"
      by blast
    with get_next_block_character_reads [OF g] show ?thesis
      by (rule reads_trans)
  next
    case False
    with "1.prems" g have "st' = st1"
      by (subst (asm) read_overflow_loop.simps) simp
    with get_next_block_character_reads [OF g] show ?thesis by simp
  qed
qed

lemma add_overflow_reads:
  assumes "add_overflow x full st = Inr (y, st')"
  shows "reads st st'"
proof (cases "x = full")
  case True
  with assms obtain acc where "read_overflow_loop 0 st = Inr (acc, st')"
    by (auto simp: add_overflow_def read_overflow_def split: sum.splits)
  then show ?thesis by (rule read_overflow_loop_reads)
next
  case False
  with assms have "st' = st" by (simp add: add_overflow_def)
  then show ?thesis by (simp add: reads_refl)
qed

lemma repeat_fields_reads:
  assumes "repeat_fields cmd st = Inr (offset, count, data, st')"
  shows "reads st st'"
proof -
  from assms obtain off st1 cnt st2 where
    a: "add_overflow (ucast (drop_bit 5 cmd AND 3)) 3 st = Inr (off, st1)" and
    b: "add_overflow (ucast (cmd AND 31)) 31 st1 = Inr (cnt, st2)" and
    c: "get_next_block_character st2 = Inr (data, st')"
    by (auto simp: repeat_fields_def split: sum.splits)
  from add_overflow_reads [OF a] add_overflow_reads [OF b]
    get_next_block_character_reads [OF c]
  show ?thesis by (blast intro: reads_trans)
qed

lemma substitute_fields_reads:
  assumes "substitute_fields cmd st = Inr (offset, count, st')"
  shows "reads st st'"
proof -
  from assms obtain off st1 cnt where
    a: "add_overflow (ucast (drop_bit 3 cmd AND 15)) 15 st = Inr (off, st1)" and
    b: "add_overflow (ucast (cmd AND 7)) 7 st1 = Inr (cnt, st')"
    by (auto simp: substitute_fields_def split: sum.splits)
  from add_overflow_reads [OF a] add_overflow_reads [OF b]
  show ?thesis by (rule reads_trans)
qed

lemma fill_n_length [simp]: "length (fill_n pos n d xs) = length xs"
  by (induction n arbitrary: pos xs) simp_all

lemma fill_n_nth:
  "i < length xs \<Longrightarrow>
   fill_n pos n d xs ! i = (if pos \<le> i \<and> i < pos + n then d else xs ! i)"
proof (induction n arbitrary: pos xs)
  case 0
  then show ?case by auto
next
  case (Suc n)
  from Suc.prems have "i < length (xs[pos := d])" by simp
  from Suc.IH [OF this, of "Suc pos"] Suc.prems show ?case
    by (cases "i = pos") (auto simp: nth_list_update)
qed

lemma fill_n_replicate:
  "pos + n \<le> length xs \<Longrightarrow>
   fill_n pos n d xs = take pos xs @ replicate n d @ drop (pos + n) xs"
  by (rule nth_equalityI) (auto simp: fill_n_nth nth_append min_def)

lemma generate_n_line:
  "generate_n pos n st = Inr st' \<Longrightarrow>
   length (line st') = length (line st) \<and> line_offset st' = line_offset st \<and>
   page st' = page st \<and>
   (\<forall>i. \<not> (pos \<le> i \<and> i < pos + n) \<longrightarrow> line st' ! i = line st ! i)"
proof (induction n arbitrary: pos st)
  case 0
  then show ?case by simp
next
  case (Suc n)
  from Suc.prems obtain ch st1 where
    g: "get_next_block_character st = Inr (ch, st1)" and
    r: "generate_n (Suc pos) n (st1\<lparr>line := (line st1)[pos := ch]\<rparr>) = Inr st'"
    by (auto split: sum.splits)
  from get_next_block_character_reads [OF g] have
    l: "line st1 = line st" "line_offset st1 = line_offset st" "page st1 = page st"
    by (simp_all add: reads_def)
  from Suc.IH [OF r] l show ?case by auto
qed

lemma grow_line_eq:
  assumes "grow_line e st = Inr st'"
  shows "st' = st\<lparr>line := line st @ replicate (e - length (line st)) 0\<rparr>"
  using assms by (auto simp: grow_line_def resize_def split: if_splits)

lemma grow_line_inv:
  assumes "length (line st) \<le> MAX_LINE_SIZE"
  shows "grow_line e st =
     (if e > MAX_LINE_SIZE then Inl Line_overflow
      else Inr (st\<lparr>line := line st @ replicate (e - length (line st)) 0\<rparr>))"
  using assms by (auto simp: grow_line_def resize_def)

lemma read_repeat_unfold:
  assumes "repeat_fields cmd st = Inr (offset, count, data, st1)"
  shows "read_repeat cmd st =
     (case grow_line (line_offset st + unat offset + unat count) st1 of
        Inl e \<Rightarrow> Inl e
      | Inr st2 \<Rightarrow>
          Inr (st2\<lparr>line := fill_n (line_offset st + unat offset) (unat count) data (line st2),
                   line_offset := line_offset st + unat offset + unat count\<rparr>))"
proof -
  from repeat_fields_reads [OF assms] have
    l: "line st1 = line st" "line_offset st1 = line_offset st"
    by (simp_all add: reads_def)
  have "line_offset st2 = line_offset st1" if "grow_line e st1 = Inr st2" for e st2
    using grow_line_eq [OF that] by simp
  with assms l show ?thesis
    by (auto simp: read_repeat_def Let_def split: sum.splits)
qed

lemma read_substitute_unfold:
  assumes "substitute_fields cmd st = Inr (offset, count, st1)"
  shows "read_substitute cmd st =
     (case grow_line (line_offset st + unat offset + unat count) st1 of
        Inl e \<Rightarrow> Inl e
      | Inr st2 \<Rightarrow>
          (case generate_n (line_offset st + unat offset) (unat count) st2 of
             Inl e \<Rightarrow> Inl e
           | Inr st3 \<Rightarrow>
               Inr (st3\<lparr>line_offset := line_offset st + unat offset + unat count\<rparr>)))"
proof -
  from substitute_fields_reads [OF assms] have
    l: "line st1 = line st" "line_offset st1 = line_offset st"
    by (simp_all add: reads_def)
  have "line_offset st2 = line_offset st1" if "grow_line e st1 = Inr st2" for e st2
    using grow_line_eq [OF that] by simp
  with assms l show ?thesis
    by (auto simp: read_substitute_def Let_def split: sum.splits)
qed

lemma read_repeat_line:
  assumes f: "repeat_fields cmd st = Inr (offset, count, data, st1)"
    and r: "read_repeat cmd st = Inr st'"
  shows "line_offset st' = line_offset st + unat offset + unat count"
    and "length (line st') =
      max (length (line st)) (line_offset st + unat offset + unat count)"
    and "page st' = page st"
    and "length (line st) < line_offset st + unat offset + unat count \<longrightarrow>
      line_offset st + unat offset + unat count \<le> MAX_LINE_SIZE"
    and "\<forall>i<length (line st').
      line st' ! i =
        (if line_offset st + unat offset \<le> i \<and>
            i < line_offset st + unat offset + unat count then data
         else if i < length (line st) then line st ! i else 0)"
proof -
  let ?a = "line_offset st + unat offset"
  let ?e = "?a + unat count"
  from repeat_fields_reads [OF f] have p: "page st1 = page st" and l: "line st1 = line st"
    by (simp_all add: reads_def)
  from r obtain st2 where
    g: "grow_line ?e st1 = Inr st2" and
    s: "st' = st2\<lparr>line := fill_n ?a (unat count) data (line st2), line_offset := ?e\<rparr>"
    by (auto simp: read_repeat_unfold [OF f] split: sum.splits)
  from grow_line_eq [OF g] l have
    l2: "line st2 = line st @ replicate (?e - length (line st)) 0" and
    p2: "page st2 = page st1"
    by simp_all
  from s show "line_offset st' = ?e" by simp
  from s l2 show len: "length (line st') = max (length (line st)) ?e"
    by (simp add: max_def)
  from s p p2 show "page st' = page st" by simp
  from g l show "length (line st) < ?e \<longrightarrow> ?e \<le> MAX_LINE_SIZE"
    by (auto simp: grow_line_def split: if_splits)
  show "\<forall>i<length (line st').
      line st' ! i =
        (if ?a \<le> i \<and> i < ?e then data
         else if i < length (line st) then line st ! i else 0)"
  proof (intro allI impI)
    fix i assume "i < length (line st')"
    with s have i: "i < length (line st2)" by simp
    from s have "line st' ! i = fill_n ?a (unat count) data (line st2) ! i" by simp
    also from i have "\<dots> = (if ?a \<le> i \<and> i < ?e then data else line st2 ! i)"
      by (simp add: fill_n_nth)
    also from i l2 have "line st2 ! i = (if i < length (line st) then line st ! i else 0)"
      by (auto simp: nth_append)
    finally show "line st' ! i =
        (if ?a \<le> i \<and> i < ?e then data
         else if i < length (line st) then line st ! i else 0)" .
  qed
qed

lemma read_substitute_line:
  assumes f: "substitute_fields cmd st = Inr (offset, count, st1)"
    and r: "read_substitute cmd st = Inr st'"
  shows "line_offset st' = line_offset st + unat offset + unat count"
    and "length (line st') =
      max (length (line st)) (line_offset st + unat offset + unat count)"
    and "page st' = page st"
    and "length (line st) < line_offset st + unat offset + unat count \<longrightarrow>
      line_offset st + unat offset + unat count \<le> MAX_LINE_SIZE"
    and "\<forall>i<length (line st').
      \<not> (line_offset st + unat offset \<le> i \<and>
         i < line_offset st + unat offset + unat count) \<longrightarrow>
      line st' ! i = (if i < length (line st) then line st ! i else 0)"
proof -
  let ?a = "line_offset st + unat offset"
  let ?e = "?a + unat count"
  from substitute_fields_reads [OF f] have p: "page st1 = page st" and l: "line st1 = line st"
    by (simp_all add: reads_def)
  from r obtain st2 st3 where
    g: "grow_line ?e st1 = Inr st2" and
    n: "generate_n ?a (unat count) st2 = Inr st3" and
    s: "st' = st3\<lparr>line_offset := ?e\<rparr>"
    by (auto simp: read_substitute_unfold [OF f] split: sum.splits)
  from grow_line_eq [OF g] l have
    l2: "line st2 = line st @ replicate (?e - length (line st)) 0" and
    p2: "page st2 = page st1"
    by simp_all
  note gl = generate_n_line [OF n]
  from s show "line_offset st' = ?e" by simp
  from s l2 gl show len: "length (line st') = max (length (line st)) ?e"
    by (simp add: max_def)
  from s p p2 gl show "page st' = page st" by simp
  from g l show "length (line st) < ?e \<longrightarrow> ?e \<le> MAX_LINE_SIZE"
    by (auto simp: grow_line_def split: if_splits)
  show "\<forall>i<length (line st').
      \<not> (?a \<le> i \<and> i < ?e) \<longrightarrow>
      line st' ! i = (if i < length (line st) then line st ! i else 0)"
  proof (intro allI impI)
    fix i assume "i < length (line st')" and o: "\<not> (?a \<le> i \<and> i < ?e)"
    with s gl have i: "i < length (line st2)" by simp
    from s have "line st' ! i = line st3 ! i" by simp
    also from gl o have "\<dots> = line st2 ! i" by blast
    also from i l2 have "line st2 ! i = (if i < length (line st) then line st ! i else 0)"
      by (auto simp: nth_append)
    finally show "line st' ! i = (if i < length (line st) then line st ! i else 0)" .
  qed
qed

section \<open>Carry-over from the previous line\<close>

lemma read_edit_carry:
  assumes "read_edit st = Inr st'"
  shows "length (line st) \<le> length (line st')"
    and "line_offset st \<le> line_offset st'"
    and "line_offset st' \<le> length (line st')"
    and "page st' = page st"
    and "length (line st) \<le> MAX_LINE_SIZE \<longrightarrow> length (line st') \<le> MAX_LINE_SIZE"
    and "\<forall>i<length (line st'). i \<notin> edit_span st \<longrightarrow>
      line st' ! i = (if i < length (line st) then line st ! i else 0)"
proof -
  from assms obtain cmd st1 where
    g: "get_next_block_character st = Inr (cmd, st1)" and
    b: "(if sint cmd < 0 then read_repeat cmd st1 else read_substitute cmd st1) = Inr st'"
    by (auto simp: read_edit_def split: sum.splits)
  from get_next_block_character_reads [OF g] have
    l: "line st1 = line st" "line_offset st1 = line_offset st" "page st1 = page st"
    by (simp_all add: reads_def)
  have "length (line st) \<le> length (line st') \<and> line_offset st \<le> line_offset st' \<and>
    line_offset st' \<le> length (line st') \<and> page st' = page st \<and>
    (length (line st) \<le> MAX_LINE_SIZE \<longrightarrow> length (line st') \<le> MAX_LINE_SIZE) \<and>
    (\<forall>i<length (line st'). i \<notin> edit_span st \<longrightarrow>
      line st' ! i = (if i < length (line st) then line st ! i else 0))"
  proof (cases "sint cmd < 0")
    case True
    with b have r: "read_repeat cmd st1 = Inr st'" by simp
    then obtain offset count data st2 where
      f: "repeat_fields cmd st1 = Inr (offset, count, data, st2)"
      by (auto simp: read_repeat_def split: sum.splits)
    from repeat_fields_reads [OF f] l have o2: "line_offset st2 = line_offset st"
      by (simp add: reads_def)
    from g True f o2 have sp: "edit_span st =
        {line_offset st + unat offset ..< line_offset st + unat offset + unat count}"
      by (simp add: edit_span_def)
    note rl = read_repeat_line [OF f r, unfolded l]
    from rl(1,2,3,4) show ?thesis
      apply (intro conjI)
           apply (simp_all add: max_def)
      using rl(5) sp apply auto
      done
  next
    case False
    with b have r: "read_substitute cmd st1 = Inr st'" by simp
    then obtain offset count st2 where
      f: "substitute_fields cmd st1 = Inr (offset, count, st2)"
      by (auto simp: read_substitute_def split: sum.splits)
    from substitute_fields_reads [OF f] l have o2: "line_offset st2 = line_offset st"
      by (simp add: reads_def)
    from g False f o2 have sp: "edit_span st =
        {line_offset st + unat offset ..< line_offset st + unat offset + unat count}"
      by (simp add: edit_span_def)
    note rl = read_substitute_line [OF f r, unfolded l]
    from rl(1,2,3,4) show ?thesis
      apply (intro conjI)
           apply (simp_all add: max_def)
      using rl(5) sp apply auto
      done
  qed
  then show "length (line st) \<le> length (line st')"
    and "line_offset st \<le> line_offset st'"
    and "line_offset st' \<le> length (line st')"
    and "page st' = page st"
    and "length (line st) \<le> MAX_LINE_SIZE \<longrightarrow> length (line st') \<le> MAX_LINE_SIZE"
    and "\<forall>i<length (line st'). i \<notin> edit_span st \<longrightarrow>
      line st' ! i = (if i < length (line st) then line st ! i else 0)"
    by blast+
qed

lemma read_edits_carry:
  "read_edits n st = Inr st' \<Longrightarrow>
   length (line st) \<le> length (line st') \<and> line_offset st \<le> line_offset st' \<and>
   page st' = page st \<and>
   (length (line st) \<le> MAX_LINE_SIZE \<longrightarrow> length (line st') \<le> MAX_LINE_SIZE) \<and>
   (\<forall>i<length (line st'). i \<notin> line_spans n st \<longrightarrow>
      line st' ! i = (if i < length (line st) then line st ! i else 0))"
proof (induction n arbitrary: st)
  case 0
  then show ?case by simp
next
  case (Suc n)
  from Suc.prems obtain st1 where
    e: "read_edit st = Inr st1" and r: "read_edits n st1 = Inr st'"
    by (auto split: sum.splits)
  note c1 = read_edit_carry [OF e]
  note c2 = Suc.IH [OF r]
  from e have sp: "line_spans (Suc n) st = edit_span st \<union> line_spans n st1"
    by simp
  have "\<forall>i<length (line st'). i \<notin> line_spans (Suc n) st \<longrightarrow>
      line st' ! i = (if i < length (line st) then line st ! i else 0)"
  proof (intro allI impI)
    fix i assume i: "i < length (line st')" and o: "i \<notin> line_spans (Suc n) st"
    from o sp have o1: "i \<notin> edit_span st" and o2: "i \<notin> line_spans n st1"
      by simp_all
    from c2 i o2 have a: "line st' ! i = (if i < length (line st1) then line st1 ! i else 0)"
      by blast
    show "line st' ! i = (if i < length (line st) then line st ! i else 0)"
    proof (cases "i < length (line st1)")
      case True
      with c1(6) o1 a show ?thesis by simp
    next
      case False
      with c1(1) a show ?thesis by simp
    qed
  qed
  with c1 c2 show ?case by auto
qed

section \<open>The length of the line\<close>

lemma get_next_block_character_error:
  "get_next_block_character st = Inl e \<Longrightarrow> e = Read_past_block_end \<or> e = Unexpected_eof"
  by (auto simp: get_next_block_character_def get_def split: if_splits list.splits)

lemma generate_n_error:
  "generate_n pos n st = Inl e \<Longrightarrow> e = Read_past_block_end \<or> e = Unexpected_eof"
proof (induction n arbitrary: pos st)
  case 0
  then show ?case by simp
next
  case (Suc n)
  show ?case
  proof (cases "get_next_block_character st")
    case (Inl e')
    with Suc.prems have "e = e'" by simp
    with get_next_block_character_error [OF Inl] show ?thesis by simp
  next
    case (Inr x)
    obtain ch st1 where "x = (ch, st1)" by (cases x)
    with Inr Suc.prems have
      "generate_n (Suc pos) n (st1\<lparr>line := (line st1)[pos := ch]\<rparr>) = Inl e"
      by simp
    then show ?thesis by (rule Suc.IH)
  qed
qed

lemma read_repeat_overflow:
  assumes "repeat_fields cmd st = Inr (offset, count, data, st1)"
    and "length (line st) \<le> MAX_LINE_SIZE"
    and "MAX_LINE_SIZE < line_offset st + unat offset + unat count"
  shows "read_repeat cmd st = Inl Line_overflow"
proof -
  from repeat_fields_reads [OF assms(1)] have "line st1 = line st"
    by (simp add: reads_def)
  with assms(2,3) show ?thesis
    by (simp add: read_repeat_unfold [OF assms(1)] grow_line_def)
qed

lemma read_substitute_overflow:
  assumes "substitute_fields cmd st = Inr (offset, count, st1)"
    and "length (line st) \<le> MAX_LINE_SIZE"
    and "MAX_LINE_SIZE < line_offset st + unat offset + unat count"
  shows "read_substitute cmd st = Inl Line_overflow"
proof -
  from substitute_fields_reads [OF assms(1)] have "line st1 = line st"
    by (simp add: reads_def)
  with assms(2,3) show ?thesis
    by (simp add: read_substitute_unfold [OF assms(1)] grow_line_def)
qed

lemma read_repeat_succeeds:
  assumes "repeat_fields cmd st = Inr (offset, count, data, st1)"
    and "line_offset st + unat offset + unat count \<le> MAX_LINE_SIZE"
  shows "\<exists>st'. read_repeat cmd st = Inr st'"
  using assms(2)
  by (simp add: read_repeat_unfold [OF assms(1)] grow_line_def)

lemma read_substitute_no_overflow:
  assumes "substitute_fields cmd st = Inr (offset, count, st1)"
    and "line_offset st + unat offset + unat count \<le> MAX_LINE_SIZE"
  shows "read_substitute cmd st \<noteq> Inl Line_overflow"
  using assms(2)
  by (auto simp: read_substitute_unfold [OF assms(1)] grow_line_def
      split: sum.splits dest: generate_n_error)

lemma read_line_length:
  assumes "read_line st = Inr st'" and "length (line st) \<le> MAX_LINE_SIZE"
  shows "length (line st') \<le> MAX_LINE_SIZE"
proof -
  from assms(1) obtain num_edits st1 st2 where
    a: "get_next_block_character st = Inr (num_edits, st1)" and
    b: "(if num_edits = 255 then Inr (st1\<lparr>line := []\<rparr>)
         else read_edits (unat num_edits) (st1\<lparr>line_offset := 0\<rparr>)) = Inr st2" and
    c: "st' = st2\<lparr>page := page st2 @ [line st2]\<rparr>"
    by (auto simp: read_line_def split: sum.splits)
  from get_next_block_character_reads [OF a] have l: "line st1 = line st"
    by (simp add: reads_def)
  show ?thesis
  proof (cases "num_edits = 255")
    case True
    with b c show ?thesis by auto
  next
    case False
    with b have "read_edits (unat num_edits) (st1\<lparr>line_offset := 0\<rparr>) = Inr st2"
      by simp
    from read_edits_carry [OF this] l assms(2) c show ?thesis by simp
  qed
qed

lemma read_line_page:
  assumes "read_line st = Inr st'"
  shows "page st' = page st @ [line st']"
proof -
  from assms obtain num_edits st1 where
    g: "get_next_block_character st = Inr (num_edits, st1)"
    by (auto simp: read_line_def split: sum.splits)
  from get_next_block_character_reads [OF g] have l: "page st1 = page st"
    by (simp add: reads_def)
  show ?thesis
  proof (cases "num_edits = 255")
    case True
    with assms g l show ?thesis by (auto simp: read_line_def)
  next
    case False
    with assms g obtain st2 where
      e: "read_edits (unat num_edits) (st1\<lparr>line_offset := 0\<rparr>) = Inr st2" and
      s: "st' = st2\<lparr>page := page st2 @ [line st2]\<rparr>"
      by (auto simp: read_line_def split: sum.splits)
    from read_edits_carry [OF e] l s show ?thesis by simp
  qed
qed

lemma read_line_bounded:
  assumes "read_line st = Inr st'" and "lines_bounded st"
  shows "lines_bounded st'"
  using read_line_length [OF assms(1)] read_line_page [OF assms(1)] assms(2)
  by (simp add: lines_bounded_def)

lemma read_lines_bounded:
  "read_lines n st = Inr st' \<Longrightarrow> lines_bounded st \<Longrightarrow> lines_bounded st'"
proof (induction n arbitrary: st)
  case 0
  then show ?case by simp
next
  case (Suc n)
  from Suc.prems(1) obtain st1 where
    e: "read_line st = Inr st1" and r: "read_lines n st1 = Inr st'"
    by (auto split: sum.splits)
  from Suc.IH [OF r read_line_bounded [OF e Suc.prems(2)]] show ?case .
qed

lemma read_block_bounded:
  assumes "read_block st = Inr st'" and "lines_bounded st"
  shows "lines_bounded st'"
proof -
  from assms(1) obtain hi st1 lo st2 where
    a: "get_next_block_character st = Inr (hi, st1)" and
    b: "get_next_block_character st1 = Inr (lo, st2)" and
    c: "read_lines (unat ((ucast hi :: 32 word) * 256 + ucast lo)) st2 = Inr st'"
    by (auto simp: read_block_def Let_def split: sum.splits)
  from reads_trans [OF get_next_block_character_reads [OF a]
      get_next_block_character_reads [OF b]] assms(2)
  have "lines_bounded st2" by (simp add: reads_def lines_bounded_def)
  with c show ?thesis by (rule read_lines_bounded)
qed

lemma graphics_data_bounded:
  assumes "graphics_data st = Inr st'" and "lines_bounded st"
  shows "lines_bounded st'"
proof -
  from assms(1) obtain st1 where
    f: "format st = 1030" and b: "read_block st = Inr st1"
    by (auto simp: graphics_data_def split: sum.splits if_splits)
  note i = read_block_bounded [OF b assms(2)]
  show ?thesis
  proof (cases "number st1 = 0")
    case True
    with assms(1) f b have "st' = st1" by (simp add: graphics_data_def)
    with i show ?thesis by simp
  next
    case False
    from assms(1) graphics_data_leftover [OF f b False] i show ?thesis
      by (auto simp: lines_bounded_def split: if_splits)
  qed
qed

lemma read_page_body_bounded:
  assumes "read_page_body ch st = Inr st'" and "lines_bounded st"
  shows "lines_bounded st'"
proof -
  have upd: "lines_bounded (s\<lparr>in_file := a\<rparr>) = lines_bounded s"
    "lines_bounded (s\<lparr>number := b\<rparr>) = lines_bounded s"
    "lines_bounded (s\<lparr>format := c\<rparr>) = lines_bounded s"
    "lines_bounded (s\<lparr>in_raster := d\<rparr>) = lines_bounded s" for s a b c d
    by (simp_all add: lines_bounded_def)
  from assms show ?thesis
    unfolding read_page_body_def
    by (auto simp: upd get_def split: sum.splits if_splits list.splits
        dest: graphics_data_bounded)
qed

lemma read_page_loop_bounded:
  "read_page_loop st = Inr st' \<Longrightarrow> lines_bounded st \<Longrightarrow> lines_bounded st'"
proof (induction st rule: read_page_loop.induct)
  case (1 st)
  show ?case
  proof (cases "in_file st")
    case Nil
    with "1.prems" have "st' = st"
      by (subst (asm) read_page_loop.simps) simp
    with "1.prems" show ?thesis by simp
  next
    case (Cons ch rest)
    from "1.prems"(2) have i: "lines_bounded (st\<lparr>in_file := rest\<rparr>)"
      by (simp add: lines_bounded_def)
    show ?thesis
    proof (cases "ch = 0x0C")
      case True
      with "1.prems" Cons have "st' = st\<lparr>in_file := rest\<rparr>"
        by (subst (asm) read_page_loop.simps) simp
      with i show ?thesis by simp
    next
      case False
      with "1.prems" Cons obtain st1 where
        b: "read_page_body ch (st\<lparr>in_file := rest\<rparr>) = Inr st1" and
        r: "read_page_loop st1 = Inr st'"
        by (subst (asm) read_page_loop.simps) (auto split: sum.splits)
      from "1.IH" [OF Cons False b r read_page_body_bounded [OF b i]]
      show ?thesis .
    qed
  qed
qed

lemma read_page_bounded:
  assumes "read_page st = Inr (b, st')"
  shows "lines_bounded st'"
proof -
  let ?st0 = "st\<lparr>in_raster := False, format := 0, page := [], line := []\<rparr>"
  from assms have l: "read_page_loop ?st0 = Inr st'"
    by (auto simp: read_page_def split: sum.splits)
  have "lines_bounded ?st0" by (simp add: lines_bounded_def)
  with l show ?thesis by (rule read_page_loop_bounded)
qed

lemma read_overflow_run:
  "in_file st = replicate k 255 @ v # rest \<Longrightarrow> v \<noteq> 255 \<Longrightarrow> k < unat (number st) \<Longrightarrow>
   read_overflow st =
     Inr (of_nat (255 * k + unat v),
          st\<lparr>in_file := rest, number := number st - of_nat (Suc k)\<rparr>)"
  unfolding read_overflow_def
  using read_overflow_loop_run [of st k v rest 0] by simp

section \<open>Sixteen-bit fields\<close>






section \<open>More input after a run\<close>

lemma more_input_simps [simp]:
  "in_file (more_input t st) = in_file st @ t"
  "page (more_input t st) = page st"
  "line (more_input t st) = line st"
  "line_offset (more_input t st) = line_offset st"
  "in_raster (more_input t st) = in_raster st"
  "number (more_input t st) = number st"
  "format (more_input t st) = format st"
  "warnings (more_input t st) = warnings st"
  "more_input t (st\<lparr>page := p\<rparr>) = (more_input t st)\<lparr>page := p\<rparr>"
  "more_input t (st\<lparr>line := l\<rparr>) = (more_input t st)\<lparr>line := l\<rparr>"
  "more_input t (st\<lparr>line_offset := n\<rparr>) = (more_input t st)\<lparr>line_offset := n\<rparr>"
  "more_input t (st\<lparr>in_raster := b\<rparr>) = (more_input t st)\<lparr>in_raster := b\<rparr>"
  "more_input t (st\<lparr>number := w\<rparr>) = (more_input t st)\<lparr>number := w\<rparr>"
  "more_input t (st\<lparr>format := f\<rparr>) = (more_input t st)\<lparr>format := f\<rparr>"
  "more_input t (st\<lparr>warnings := ws\<rparr>) = (more_input t st)\<lparr>warnings := ws\<rparr>"
  "more_input t (st\<lparr>in_file := xs\<rparr>) = st\<lparr>in_file := xs @ t\<rparr>"
  by (simp_all add: more_input_def)
























section \<open>The edits of a line, one after the other\<close>

lemma funpow_error:
  "((\<lambda>r. case r of Inl e \<Rightarrow> Inl e | Inr s' \<Rightarrow> read_edit s') ^^ n) (Inl e) = Inl e"
  by (induction n) simp_all

lemma read_edits_funpow:
  "read_edits n s =
     ((\<lambda>r. case r of Inl e \<Rightarrow> Inl e | Inr s' \<Rightarrow> read_edit s') ^^ n) (Inr s)"
proof (induction n arbitrary: s)
  case 0
  then show ?case by simp
next
  case (Suc n)
  show ?case
  proof (cases "read_edit s")
    case (Inl e)
    then show ?thesis
      by (simp add: funpow_Suc_right funpow_error del: funpow.simps)
  next
    case (Inr s1)
    with Suc.IH [of s1] show ?thesis
      by (simp add: funpow_Suc_right del: funpow.simps)
  qed
qed

section \<open>The claims\<close>

text \<open>
  C1 (as amended): in raster mode the action of the letter comes first. After \<open>m\<close>
  and \<open>w\<close> the parameter-character branch then sets \<open>number\<close> to 0 and the parser
  stays in raster mode. \<open>M\<close> and \<open>W\<close> lie in the terminating range \<open>@..^\<close>: after
  their action the parser leaves raster mode and \<open>number\<close> is not reset by that branch
  (after \<open>M\<close> it keeps its value; after \<open>W\<close> it is 0 because the block reader and
  the drain loop have counted it down).
\<close>

theorem letter_then_reset:
  assumes "in_raster st"
  shows
    "read_page_body 0x6D st = Inr (st\<lparr>format := number st, number := 0\<rparr>) \<and>
     read_page_body 0x4D st = Inr (st\<lparr>format := number st, in_raster := False\<rparr>) \<and>
     read_page_body 0x77 st =
       (case graphics_data st of Inl e \<Rightarrow> Inl e | Inr st1 \<Rightarrow> Inr (st1\<lparr>number := 0\<rparr>)) \<and>
     read_page_body 0x57 st =
       (case graphics_data st of Inl e \<Rightarrow> Inl e | Inr st1 \<Rightarrow> Inr (st1\<lparr>in_raster := False\<rparr>)) \<and>
     (graphics_data st = Inr st1 \<longrightarrow> in_raster st1 \<and> number st1 = 0)"
proof (intro conjI impI)
  show "read_page_body 0x6D st = Inr (st\<lparr>format := number st, number := 0\<rparr>)"
    using assms by (simp add: read_page_body_def)
  show "read_page_body 0x4D st = Inr (st\<lparr>format := number st, in_raster := False\<rparr>)"
    using assms by (simp add: read_page_body_def)
  show "read_page_body 0x77 st =
      (case graphics_data st of Inl e \<Rightarrow> Inl e | Inr st1 \<Rightarrow> Inr (st1\<lparr>number := 0\<rparr>))"
    using assms by (simp add: read_page_body_def split: sum.splits)
  show "read_page_body 0x57 st =
      (case graphics_data st of Inl e \<Rightarrow> Inl e | Inr st1 \<Rightarrow> Inr (st1\<lparr>in_raster := False\<rparr>))"
    using assms by (simp add: read_page_body_def split: sum.splits)
next
  assume g: "graphics_data st = Inr st1"
  from graphics_data_parser [OF g] assms show "in_raster st1" by simp
  from graphics_data_exact [OF g] show "number st1 = 0" by simp
qed

theorem letter_then_reset_witness:
  "read_page_body 0x6D
     \<lparr>in_file = [0, 0], page = [], line = [], line_offset = 0,
      in_raster = True, number = 2, format = 1030, warnings = []\<rparr> =
   Inr \<lparr>in_file = [0, 0], page = [], line = [], line_offset = 0,
        in_raster = True, number = 0, format = 2, warnings = []\<rparr> \<and>
   read_page_body 0x77
     \<lparr>in_file = [0, 0], page = [], line = [], line_offset = 0,
      in_raster = True, number = 2, format = 1030, warnings = []\<rparr> =
   Inr \<lparr>in_file = [], page = [], line = [], line_offset = 0,
        in_raster = True, number = 0, format = 1030, warnings = []\<rparr>"
proof -
  let ?st = "\<lparr>in_file = [0, 0], page = [], line = [], line_offset = 0,
      in_raster = True, number = 2, format = 1030, warnings = []\<rparr>"
  have r: "in_raster ?st" by simp
  have g: "graphics_data ?st =
      Inr \<lparr>in_file = [], page = [], line = [], line_offset = 0,
           in_raster = True, number = 0, format = 1030, warnings = []\<rparr>"
    by (simp add: graphics_data_def read_block_def get_next_block_character_def get_def)
  from letter_then_reset [OF r] g show ?thesis by simp
qed

theorem uppercase_letter_counterexample:
  "read_page_body 0x4D
     \<lparr>in_file = [], page = [], line = [], line_offset = 0,
      in_raster = True, number = 5, format = 0, warnings = []\<rparr> =
   Inr \<lparr>in_file = [], page = [], line = [], line_offset = 0,
        in_raster = False, number = 5, format = 5, warnings = []\<rparr> \<and>
   read_page_body 0x57
     \<lparr>in_file = [0, 0], page = [], line = [], line_offset = 0,
      in_raster = True, number = 2, format = 1030, warnings = []\<rparr> =
   Inr \<lparr>in_file = [], page = [], line = [], line_offset = 0,
        in_raster = False, number = 0, format = 1030, warnings = []\<rparr>"
  by (simp add: read_page_body_def graphics_data_def read_block_def
      get_next_block_character_def get_def)

text \<open>
  C2 (as amended): the stream 1B 2A 62 30 57 00 00 0C, decoded with \<open>format\<close> at its
  initial value 0, ends in the unsupported-compression error for format 0 and no page
  is written. In general \<open>w\<close> or \<open>W\<close> met in raster mode with
  \<open>format \<noteq> 1030\<close> throws \<open>unsupported_compression\<close> with the format code, before
  any byte of the block is read, and the error ends \<open>read_page\<close>'s loop.
\<close>

theorem unsupported_compression_fatal:
  assumes "in_raster st" and "format st \<noteq> 1030" and "ch = 0x77 \<or> ch = 0x57"
  shows
    "read_page_body ch st = Inl (Unsupported_compression (format st)) \<and>
     read_page_loop (st\<lparr>in_file := ch # rest\<rparr>) = Inl (Unsupported_compression (format st)) \<and>
     main [0x1B, 0x2A, 0x62, 0x30, 0x57, 0, 0, 0x0C] = ([], Some (Unsupported_compression 0))"
proof (intro conjI)
  from assms show b: "read_page_body ch st = Inl (Unsupported_compression (format st))"
    by (auto simp: read_page_body_def graphics_data_def)
  from assms(3) have "ch \<noteq> 0x0C" by auto
  moreover have "read_page_body ch (st\<lparr>in_file := rest\<rparr>) =
      Inl (Unsupported_compression (format st))"
    using assms by (auto simp: read_page_body_def graphics_data_def)
  ultimately show "read_page_loop (st\<lparr>in_file := ch # rest\<rparr>) =
      Inl (Unsupported_compression (format st))"
    by (subst read_page_loop.simps) simp
  have "read_page (initial [0x1B, 0x2A, 0x62, 0x30, 0x57, 0, 0, 0x0C]) =
      Inl (Unsupported_compression 0)"
    by (simp add: read_page_def initial_def read_page_loop.simps read_page_body_def get_def
        graphics_data_def)
  then show "main [0x1B, 0x2A, 0x62, 0x30, 0x57, 0, 0, 0x0C] =
      ([], Some (Unsupported_compression 0))"
    unfolding main_def by (rule main_loop_error)
qed

theorem unsupported_compression_fatal_witness:
  "read_page_body 0x57
     \<lparr>in_file = [0, 0], page = [], line = [], line_offset = 0,
      in_raster = True, number = 2, format = 0, warnings = []\<rparr> =
   Inl (Unsupported_compression 0)"
proof -
  let ?st = "\<lparr>in_file = [0, 0], page = [], line = [], line_offset = 0,
      in_raster = True, number = 2, format = 0, warnings = []\<rparr>"
  have "in_raster ?st" and "format ?st \<noteq> 1030" and "(0x57 :: byte) = 0x77 \<or> (0x57 :: byte) = 0x57"
    by simp_all
  from unsupported_compression_fatal [OF this] show ?thesis by simp
qed

theorem format_unset_block_counterexample:
  "read_page (initial [0x1B, 0x2A, 0x62, 0x30, 0x57, 0, 0, 0x0C]) =
     Inl (Unsupported_compression 0)"
  by (simp add: read_page_def initial_def read_page_loop.simps read_page_body_def get_def
      graphics_data_def)




text \<open>
  C4: \<open>read_overflow\<close> reads bytes and adds them up until it has read a byte other
  than 0xFF, whose value is part of the sum: on \<open>k\<close> bytes 0xFF followed by a byte
  \<open>v < 255\<close> it returns \<open>255 * k + v\<close> (in 32 bits) and has taken exactly these
  \<open>k + 1\<close> bytes, when the block has that many bytes left. So a sole byte \<open>v\<close>
  gives \<open>v\<close>, and the bytes 255, 255, \<open>v\<close> give \<open>510 + v\<close>.
\<close>

theorem read_overflow_sum:
  assumes "v \<noteq> 255"
  shows
    "(in_file st = replicate k 255 @ v # rest \<and> k < unat (number st) \<longrightarrow>
        read_overflow st =
          Inr (of_nat (255 * k + unat v),
               st\<lparr>in_file := rest, number := number st - of_nat (Suc k)\<rparr>)) \<and>
     (in_file st = v # rest \<and> 0 < unat (number st) \<longrightarrow>
        (\<exists>acc st'. read_overflow st = Inr (acc, st') \<and> unat acc = unat v \<and>
           in_file st' = rest)) \<and>
     (in_file st = 255 # 255 # v # rest \<and> 2 < unat (number st) \<longrightarrow>
        (\<exists>acc st'. read_overflow st = Inr (acc, st') \<and> unat acc = 510 + unat v \<and>
           in_file st' = rest))"
proof (intro conjI impI)
  assume a: "in_file st = replicate k 255 @ v # rest \<and> k < unat (number st)"
  then show "read_overflow st =
      Inr (of_nat (255 * k + unat v),
           st\<lparr>in_file := rest, number := number st - of_nat (Suc k)\<rparr>)"
    unfolding read_overflow_def
    using read_overflow_loop_run [of st k v rest 0] assms by simp
next
  assume a: "in_file st = v # rest \<and> 0 < unat (number st)"
  then have "read_overflow st =
      Inr (of_nat (255 * 0 + unat v),
           st\<lparr>in_file := rest, number := number st - of_nat (Suc 0)\<rparr>)"
    unfolding read_overflow_def
    using read_overflow_loop_run [of st 0 v rest 0] assms by simp
  then show "\<exists>acc st'. read_overflow st = Inr (acc, st') \<and> unat acc = unat v \<and>
      in_file st' = rest"
    by (simp add: unat_ucast_byte)
next
  assume a: "in_file st = 255 # 255 # v # rest \<and> 2 < unat (number st)"
  then have "in_file st = replicate 2 255 @ v # rest"
    by (simp add: numeral_2_eq_2)
  with a have "read_overflow st =
      Inr (of_nat (255 * 2 + unat v),
           st\<lparr>in_file := rest, number := number st - of_nat (Suc 2)\<rparr>)"
    unfolding read_overflow_def
    using read_overflow_loop_run [of st 2 v rest 0] assms by simp
  moreover have "unat (of_nat (255 * 2 + unat v) :: 32 word) = 510 + unat v"
  proof -
    have "unat (of_nat (255 * 2 + unat v) :: 32 word) =
        (255 * 2 + unat v) mod 2 ^ LENGTH(32)"
      by (rule unat_of_nat)
    also have "\<dots> = 510 + unat v"
      using unat_byte_less [of v] by simp
    finally show ?thesis .
  qed
  ultimately show "\<exists>acc st'. read_overflow st = Inr (acc, st') \<and>
      unat acc = 510 + unat v \<and> in_file st' = rest"
    by simp
qed

theorem read_overflow_sum_witness:
  "read_overflow ((initial [7, 9])\<lparr>number := 1\<rparr>) =
     Inr (7, (initial [9])\<lparr>number := 0\<rparr>) \<and>
   read_overflow ((initial [255, 255, 7, 9])\<lparr>number := 3\<rparr>) =
     Inr (517, (initial [9])\<lparr>number := 0\<rparr>)"
proof -
  have v: "(7 :: byte) \<noteq> 255" by simp
  let ?s1 = "(initial [7, 9])\<lparr>number := 1\<rparr>"
  let ?s2 = "(initial [255, 255, 7, 9])\<lparr>number := 3\<rparr>"
  have "in_file ?s1 = replicate 0 255 @ 7 # [9] \<and> 0 < unat (number ?s1)"
    by (simp add: initial_def)
  with read_overflow_sum [OF v, of ?s1 0 "[9]"]
  have "read_overflow ?s1 =
      Inr (of_nat (255 * 0 + unat (7 :: byte)),
           ?s1\<lparr>in_file := [9], number := number ?s1 - of_nat (Suc 0)\<rparr>)"
    by blast
  then have a: "read_overflow ?s1 = Inr (7, (initial [9])\<lparr>number := 0\<rparr>)"
    by (simp add: initial_def)
  have r: "replicate 2 (255 :: byte) = [255, 255]"
    by (simp add: numeral_2_eq_2)
  have "in_file ?s2 = replicate 2 255 @ 7 # [9] \<and> 2 < unat (number ?s2)"
    by (simp add: initial_def r)
  with read_overflow_sum [OF v, of ?s2 2 "[9]"]
  have "read_overflow ?s2 =
      Inr (of_nat (255 * 2 + unat (7 :: byte)),
           ?s2\<lparr>in_file := [9], number := number ?s2 - of_nat (Suc 2)\<rparr>)"
    by blast
  then have b: "read_overflow ?s2 = Inr (517, (initial [9])\<lparr>number := 0\<rparr>)"
    by (simp add: initial_def)
  from a b show ?thesis by (rule conjI)
qed

text \<open>
  C5: with \<open>end = line_offset + offset + count\<close> for the fields an edit has parsed,
  and a line of at most \<open>MAX_LINE_SIZE\<close> bytes before it: the edit fails with
  \<open>line_overflow\<close> when \<open>end > MAX_LINE_SIZE\<close>; otherwise the line is extended by
  zeros to exactly \<open>end\<close> bytes when it was shorter (and the bytes added below the
  written range are still zero after the edit). So the line has at most
  \<open>MAX_LINE_SIZE\<close> bytes after every line that is decoded, and \<open>read_page\<close>,
  which starts from the empty line, returns only lines of at most that length.
\<close>

theorem buffer_growth:
  assumes "length (line st) \<le> MAX_LINE_SIZE"
  shows
    "grow_line e st =
       (if e > MAX_LINE_SIZE then Inl Line_overflow
        else Inr (st\<lparr>line := line st @ replicate (e - length (line st)) 0\<rparr>)) \<and>
     (repeat_fields cmd st = Inr (offset, count, data, st1) \<longrightarrow>
        (if line_offset st + unat offset + unat count > MAX_LINE_SIZE
         then read_repeat cmd st = Inl Line_overflow
         else \<exists>st'. read_repeat cmd st = Inr st' \<and>
           length (line st') =
             max (length (line st)) (line_offset st + unat offset + unat count) \<and>
           (\<forall>i<length (line st').
              length (line st) \<le> i \<and> i < line_offset st + unat offset \<longrightarrow>
              line st' ! i = 0))) \<and>
     (substitute_fields cmd st = Inr (soffset, scount, st2) \<longrightarrow>
        (if line_offset st + unat soffset + unat scount > MAX_LINE_SIZE
         then read_substitute cmd st = Inl Line_overflow
         else read_substitute cmd st \<noteq> Inl Line_overflow \<and>
           (\<forall>st'. read_substitute cmd st = Inr st' \<longrightarrow>
              length (line st') =
                max (length (line st)) (line_offset st + unat soffset + unat scount) \<and>
              (\<forall>i<length (line st').
                 length (line st) \<le> i \<and> i < line_offset st + unat soffset \<longrightarrow>
                 line st' ! i = 0)))) \<and>
     (read_line st = Inr st3 \<longrightarrow> length (line st3) \<le> MAX_LINE_SIZE) \<and>
     (read_page st0 = Inr (nonempty, st4) \<longrightarrow>
        length (line st4) \<le> MAX_LINE_SIZE \<and>
        (\<forall>l\<in>set (page st4). length l \<le> MAX_LINE_SIZE))"
proof (intro conjI impI)
  show "grow_line e st =
       (if e > MAX_LINE_SIZE then Inl Line_overflow
        else Inr (st\<lparr>line := line st @ replicate (e - length (line st)) 0\<rparr>))"
    using assms by (rule grow_line_inv)
next
  assume f: "repeat_fields cmd st = Inr (offset, count, data, st1)"
  let ?e = "line_offset st + unat offset + unat count"
  show "if ?e > MAX_LINE_SIZE
     then read_repeat cmd st = Inl Line_overflow
     else \<exists>st'. read_repeat cmd st = Inr st' \<and>
       length (line st') = max (length (line st)) ?e \<and>
       (\<forall>i<length (line st').
          length (line st) \<le> i \<and> i < line_offset st + unat offset \<longrightarrow>
          line st' ! i = 0)"
  proof (cases "?e > MAX_LINE_SIZE")
    case True
    with read_repeat_overflow [OF f assms] show ?thesis by simp
  next
    case False
    with read_repeat_succeeds [OF f] obtain st' where r: "read_repeat cmd st = Inr st'"
      by auto
    note rl = read_repeat_line [OF f r]
    from rl(2) rl(5) r False show ?thesis by auto
  qed
next
  assume f: "substitute_fields cmd st = Inr (soffset, scount, st2)"
  let ?e = "line_offset st + unat soffset + unat scount"
  show "if ?e > MAX_LINE_SIZE
     then read_substitute cmd st = Inl Line_overflow
     else read_substitute cmd st \<noteq> Inl Line_overflow \<and>
       (\<forall>st'. read_substitute cmd st = Inr st' \<longrightarrow>
          length (line st') = max (length (line st)) ?e \<and>
          (\<forall>i<length (line st').
             length (line st) \<le> i \<and> i < line_offset st + unat soffset \<longrightarrow>
             line st' ! i = 0))"
  proof (cases "?e > MAX_LINE_SIZE")
    case True
    with read_substitute_overflow [OF f assms] show ?thesis by simp
  next
    case False
    have "length (line st') = max (length (line st)) ?e \<and>
        (\<forall>i<length (line st').
           length (line st) \<le> i \<and> i < line_offset st + unat soffset \<longrightarrow>
           line st' ! i = 0)"
      if r: "read_substitute cmd st = Inr st'" for st'
      using read_substitute_line(2) [OF f r] read_substitute_line(5) [OF f r] by auto
    with read_substitute_no_overflow [OF f] False show ?thesis by auto
  qed
next
  assume "read_line st = Inr st3"
  from read_line_length [OF this assms] show "length (line st3) \<le> MAX_LINE_SIZE" .
next
  assume "read_page st0 = Inr (nonempty, st4)"
  from read_page_bounded [OF this]
  show "length (line st4) \<le> MAX_LINE_SIZE"
    and "\<forall>l\<in>set (page st4). length l \<le> MAX_LINE_SIZE"
    by (simp_all add: lines_bounded_def list_all_iff)
qed

theorem buffer_growth_witness:
  "read_repeat 0x9F
     \<lparr>in_file = replicate 8 255 @ [0, 0xAA], page = [], line = [], line_offset = 0,
      in_raster = True, number = 10, format = 1030, warnings = []\<rparr> = Inl Line_overflow \<and>
   read_repeat 0x82
     \<lparr>in_file = [0xFF], page = [], line = [], line_offset = 0,
      in_raster = True, number = 1, format = 1030, warnings = []\<rparr> =
   Inr \<lparr>in_file = [], page = [], line = replicate 4 0xFF, line_offset = 4,
        in_raster = True, number = 0, format = 1030, warnings = []\<rparr>"
proof -
  let ?st = "\<lparr>in_file = replicate 8 255 @ [0, 0xAA], page = [], line = [], line_offset = 0,
      in_raster = True, number = 10, format = 1030, warnings = []\<rparr>"
  let ?st1 = "\<lparr>in_file = [], page = [], line = [], line_offset = 0,
      in_raster = True, number = 0, format = 1030, warnings = []\<rparr>"
  have i: "length (line ?st) \<le> MAX_LINE_SIZE" by simp
  have "read_overflow ?st =
      Inr (of_nat (255 * 8 + unat (0 :: byte)),
           ?st\<lparr>in_file := [0xAA], number := number ?st - of_nat (Suc 8)\<rparr>)"
    by (rule read_overflow_run) simp_all
  then have f: "repeat_fields 0x9F ?st = Inr (0, 2073, 0xAA, ?st1)"
    by (simp add: repeat_fields_def add_overflow_def get_next_block_character_def get_def)
  from buffer_growth [OF i, of _ "0x9F" 0 2073 "0xAA" ?st1] f
  have a: "read_repeat 0x9F ?st = Inl Line_overflow"
    by (simp add: MAX_LINE_SIZE_def)
  have b: "read_repeat 0x82
     \<lparr>in_file = [0xFF], page = [], line = [], line_offset = 0,
      in_raster = True, number = 1, format = 1030, warnings = []\<rparr> =
   Inr \<lparr>in_file = [], page = [], line = replicate 4 0xFF, line_offset = 4,
        in_raster = True, number = 0, format = 1030, warnings = []\<rparr>"
    by (simp add: read_repeat_def repeat_fields_def add_overflow_def
        get_next_block_character_def get_def grow_line_def resize_def MAX_LINE_SIZE_def
        fill_n_replicate)
  from a b show ?thesis by (rule conjI)
qed

text \<open>
  C6: in a line whose \<open>num_edits\<close> byte is not 255, every position of the decoded
  line outside the written ranges of the line's edits holds what the previous line
  held there, and zero where the previous line was shorter. The line never shrinks,
  and a copy of it is what the page receives.
\<close>

theorem carryover:
  assumes "get_next_block_character st = Inr (num_edits, st1)"
    and "num_edits \<noteq> 255"
    and "read_line st = Inr st'"
  shows "page st' = page st @ [line st'] \<and>
     length (line st) \<le> length (line st') \<and>
     (\<forall>i<length (line st').
        i \<notin> line_spans (unat num_edits) (st1\<lparr>line_offset := 0\<rparr>) \<longrightarrow>
        line st' ! i = (if i < length (line st) then line st ! i else 0))"
proof -
  from get_next_block_character_reads [OF assms(1)] have
    l: "line st1 = line st" "page st1 = page st"
    by (simp_all add: reads_def)
  from assms obtain st2 where
    e: "read_edits (unat num_edits) (st1\<lparr>line_offset := 0\<rparr>) = Inr st2" and
    s: "st' = st2\<lparr>page := page st2 @ [line st2]\<rparr>"
    by (auto simp: read_line_def split: sum.splits)
  from read_edits_carry [OF e] l s show ?thesis by simp
qed

theorem carryover_witness:
  "read_line
     \<lparr>in_file = [1, 0x20, 0xBB], page = [[0, 0, 0xAA, 0xAA]], line = [0, 0, 0xAA, 0xAA],
      line_offset = 4, in_raster = True, number = 3, format = 1030, warnings = []\<rparr> =
   Inr \<lparr>in_file = [], page = [[0, 0, 0xAA, 0xAA], [0, 0, 0xAA, 0xAA, 0xBB]],
        line = [0, 0, 0xAA, 0xAA, 0xBB],
        line_offset = 5, in_raster = True, number = 0, format = 1030, warnings = []\<rparr> \<and>
   line_spans 1
     \<lparr>in_file = [0x20, 0xBB], page = [[0, 0, 0xAA, 0xAA]], line = [0, 0, 0xAA, 0xAA],
      line_offset = 0, in_raster = True, number = 2, format = 1030, warnings = []\<rparr> = {4..<5} \<and>
   [0, 0, 0xAA, 0xAA, 0xBB :: byte] ! 2 = [0, 0, 0xAA, 0xAA] ! 2"
proof -
  let ?st = "\<lparr>in_file = [1, 0x20, 0xBB], page = [[0, 0, 0xAA, 0xAA]],
      line = [0, 0, 0xAA, 0xAA :: byte],
      line_offset = 4, in_raster = True, number = 3, format = 1030, warnings = []\<rparr>"
  let ?st1 = "\<lparr>in_file = [0x20, 0xBB], page = [[0, 0, 0xAA, 0xAA]],
      line = [0, 0, 0xAA, 0xAA :: byte],
      line_offset = 4, in_raster = True, number = 2, format = 1030, warnings = []\<rparr>"
  let ?st' = "\<lparr>in_file = [], page = [[0, 0, 0xAA, 0xAA], [0, 0, 0xAA, 0xAA, 0xBB]],
      line = [0, 0, 0xAA, 0xAA, 0xBB :: byte],
      line_offset = 5, in_raster = True, number = 0, format = 1030, warnings = []\<rparr>"
  have g: "get_next_block_character ?st = Inr (1, ?st1)"
    by (simp add: get_next_block_character_def get_def)
  have n: "(1 :: byte) \<noteq> 255" by simp
  have r: "read_line ?st = Inr ?st'"
    by (simp add: read_line_def get_next_block_character_def get_def
        read_edit_def read_substitute_def substitute_fields_def add_overflow_def
        grow_line_def resize_def MAX_LINE_SIZE_def)
  have sp: "line_spans 1 (?st1\<lparr>line_offset := 0\<rparr>) = {4..<5}"
    by (simp add: edit_span_def get_next_block_character_def get_def
        read_edit_def read_substitute_def substitute_fields_def add_overflow_def
        grow_line_def resize_def MAX_LINE_SIZE_def)
  from carryover [OF g n r] have
    "\<forall>i<length (line ?st').
        i \<notin> line_spans (unat (1 :: byte)) (?st1\<lparr>line_offset := 0\<rparr>) \<longrightarrow>
        line ?st' ! i = (if i < length (line ?st) then line ?st ! i else 0)"
    by blast
  then have "2 < length (line ?st') \<longrightarrow>
        2 \<notin> line_spans (unat (1 :: byte)) (?st1\<lparr>line_offset := 0\<rparr>) \<longrightarrow>
        line ?st' ! 2 = (if 2 < length (line ?st) then line ?st ! 2 else 0)"
    by blast
  with sp have "[0, 0, 0xAA, 0xAA, 0xBB :: byte] ! 2 = [0, 0, 0xAA, 0xAA] ! 2"
    by simp
  with r sp show ?thesis by simp
qed

text \<open>
  C7: from an empty line, the block 00 01 01 9F FF 03 00 decodes to one scan line of
  291 bytes 0x00. The extension FF 03 adds up to 258, the fields of the edit 0x9F
  are offset 0, count \<open>31 + 258 + 2 = 291\<close> and data 0x00.
\<close>

theorem overflow_count_scenario:
  "read_overflow
     \<lparr>in_file = [0xFF, 0x03, 0x00], page = [], line = [], line_offset = 0,
      in_raster = True, number = 3, format = 1030, warnings = []\<rparr> =
   Inr (258, \<lparr>in_file = [0x00], page = [], line = [], line_offset = 0,
              in_raster = True, number = 1, format = 1030, warnings = []\<rparr>) \<and>
   repeat_fields 0x9F
     \<lparr>in_file = [0xFF, 0x03, 0x00], page = [], line = [], line_offset = 0,
      in_raster = True, number = 3, format = 1030, warnings = []\<rparr> =
   Inr (0, 291, 0x00, \<lparr>in_file = [], page = [], line = [], line_offset = 0,
              in_raster = True, number = 0, format = 1030, warnings = []\<rparr>) \<and>
   read_block
     \<lparr>in_file = [0x00, 0x01, 0x01, 0x9F, 0xFF, 0x03, 0x00], page = [], line = [],
      line_offset = 0, in_raster = True, number = 7, format = 1030, warnings = []\<rparr> =
   Inr \<lparr>in_file = [], page = [replicate 291 0x00], line = replicate 291 0x00,
        line_offset = 291, in_raster = True, number = 0, format = 1030, warnings = []\<rparr>"
proof -
  let ?s = "\<lparr>in_file = [0xFF, 0x03, 0x00], page = [], line = [], line_offset = 0,
      in_raster = True, number = 3, format = 1030, warnings = []\<rparr>"
  have "read_overflow ?s =
      Inr (of_nat (255 * 1 + unat (3 :: byte)),
           ?s\<lparr>in_file := [0x00], number := number ?s - of_nat (Suc 1)\<rparr>)"
    by (rule read_overflow_run) simp_all
  then have o: "read_overflow ?s =
      Inr (258, \<lparr>in_file = [0x00], page = [], line = [], line_offset = 0,
              in_raster = True, number = 1, format = 1030, warnings = []\<rparr>)"
    by simp
  then have f: "repeat_fields 0x9F ?s =
      Inr (0, 291, 0x00, \<lparr>in_file = [], page = [], line = [], line_offset = 0,
              in_raster = True, number = 0, format = 1030, warnings = []\<rparr>)"
    by (simp add: repeat_fields_def add_overflow_def get_next_block_character_def get_def)
  then have "read_block
     \<lparr>in_file = [0x00, 0x01, 0x01, 0x9F, 0xFF, 0x03, 0x00], page = [], line = [],
      line_offset = 0, in_raster = True, number = 7, format = 1030, warnings = []\<rparr> =
   Inr \<lparr>in_file = [], page = [replicate 291 0x00], line = replicate 291 0x00,
        line_offset = 291, in_raster = True, number = 0, format = 1030, warnings = []\<rparr>"
    by (simp add: read_block_def read_line_def read_edit_def read_repeat_def
        get_next_block_character_def get_def grow_line_def resize_def MAX_LINE_SIZE_def
        fill_n_replicate)
  with o f show ?thesis by simp
qed

text \<open>
  C8: a \<open>num_edits\<close> byte of 255 empties the line and takes no further byte; the
  page receives an empty line and the next line starts from the empty buffer. Any
  other value sets \<open>line_offset\<close> to 0, applies \<open>read_edit\<close> exactly \<open>num_edits\<close>
  times, each to the state the one before has left (the first error ends the line),
  and appends a copy of the line to the page; with \<open>num_edits = 0\<close> that is an
  unchanged copy of the previous line.
\<close>

theorem read_line_cases:
  assumes "get_next_block_character st = Inr (num_edits, st1)"
  shows
    "st1 = st\<lparr>in_file := tl (in_file st), number := number st - 1\<rparr> \<and>
     (num_edits = 255 \<longrightarrow>
        read_line st = Inr (st1\<lparr>line := [], page := page st @ [[]]\<rparr>)) \<and>
     (num_edits \<noteq> 255 \<longrightarrow>
        read_line st =
          (case read_edits (unat num_edits) (st1\<lparr>line_offset := 0\<rparr>) of
             Inl e \<Rightarrow> Inl e
           | Inr st2 \<Rightarrow> Inr (st2\<lparr>page := page st @ [line st2]\<rparr>))) \<and>
     (num_edits = 0 \<longrightarrow>
        read_line st = Inr (st1\<lparr>line_offset := 0, page := page st @ [line st]\<rparr>)) \<and>
     read_edits n s =
       ((\<lambda>r. case r of Inl e \<Rightarrow> Inl e | Inr s' \<Rightarrow> read_edit s') ^^ n) (Inr s) \<and>
     (num_edits \<noteq> 255 \<longrightarrow>
        read_line st =
          (case ((\<lambda>r. case r of Inl e \<Rightarrow> Inl e | Inr s' \<Rightarrow> read_edit s') ^^ unat num_edits)
                  (Inr (st1\<lparr>line_offset := 0\<rparr>)) of
             Inl e \<Rightarrow> Inl e
           | Inr st2 \<Rightarrow> Inr (st2\<lparr>page := page st @ [line st2]\<rparr>)))"
proof (intro conjI impI)
  from assms show s1: "st1 = st\<lparr>in_file := tl (in_file st), number := number st - 1\<rparr>"
    by (auto simp: get_next_block_character_Inr)
  then have l: "line st1 = line st" "page st1 = page st"
    by simp_all
  show "read_edits n s =
      ((\<lambda>r. case r of Inl e \<Rightarrow> Inl e | Inr s' \<Rightarrow> read_edit s') ^^ n) (Inr s)"
    by (rule read_edits_funpow)
  {
    assume "num_edits = 255"
    with assms l show "read_line st = Inr (st1\<lparr>line := [], page := page st @ [[]]\<rparr>)"
      by (simp add: read_line_def)
  }
  {
    assume n: "num_edits \<noteq> 255"
    show e: "read_line st =
        (case read_edits (unat num_edits) (st1\<lparr>line_offset := 0\<rparr>) of
           Inl e \<Rightarrow> Inl e
         | Inr st2 \<Rightarrow> Inr (st2\<lparr>page := page st @ [line st2]\<rparr>))"
    proof (cases "read_edits (unat num_edits) (st1\<lparr>line_offset := 0\<rparr>)")
      case (Inl e)
      with assms n show ?thesis by (simp add: read_line_def)
    next
      case (Inr st2)
      from read_edits_carry [OF Inr] l have "page st2 = page st" by simp
      with assms n Inr show ?thesis by (simp add: read_line_def)
    qed
    show "read_line st =
        (case ((\<lambda>r. case r of Inl e \<Rightarrow> Inl e | Inr s' \<Rightarrow> read_edit s') ^^ unat num_edits)
                (Inr (st1\<lparr>line_offset := 0\<rparr>)) of
           Inl e \<Rightarrow> Inl e
         | Inr st2 \<Rightarrow> Inr (st2\<lparr>page := page st @ [line st2]\<rparr>))"
      unfolding e by (simp only: read_edits_funpow)
  }
  {
    assume "num_edits = 0"
    with assms l
    show "read_line st = Inr (st1\<lparr>line_offset := 0, page := page st @ [line st]\<rparr>)"
      by (simp add: read_line_def)
  }
qed

theorem read_line_cases_witness:
  "read_line
     \<lparr>in_file = [255, 0, 7], page = [[1, 2]], line = [1, 2], line_offset = 2,
      in_raster = True, number = 3, format = 1030, warnings = []\<rparr> =
   Inr \<lparr>in_file = [0, 7], page = [[1, 2], []], line = [], line_offset = 2,
        in_raster = True, number = 2, format = 1030, warnings = []\<rparr> \<and>
   read_line
     \<lparr>in_file = [0, 7], page = [[1, 2]], line = [1, 2], line_offset = 2,
      in_raster = True, number = 2, format = 1030, warnings = []\<rparr> =
   Inr \<lparr>in_file = [7], page = [[1, 2], [1, 2]], line = [1, 2], line_offset = 0,
        in_raster = True, number = 1, format = 1030, warnings = []\<rparr> \<and>
   read_line
     \<lparr>in_file = [0x02, 0x00, 0xA5, 0x80, 0x11], page = [], line = [], line_offset = 0,
      in_raster = True, number = 5, format = 1030, warnings = []\<rparr> =
   Inr \<lparr>in_file = [], page = [[0xA5, 0x11, 0x11]], line = [0xA5, 0x11, 0x11],
        line_offset = 3, in_raster = True, number = 0, format = 1030, warnings = []\<rparr>"
proof -
  let ?a = "\<lparr>in_file = [255, 0, 7], page = [[1, 2]], line = [1, 2 :: byte], line_offset = 2,
      in_raster = True, number = 3, format = 1030, warnings = []\<rparr>"
  let ?a1 = "\<lparr>in_file = [0, 7], page = [[1, 2]], line = [1, 2 :: byte], line_offset = 2,
      in_raster = True, number = 2, format = 1030, warnings = []\<rparr>"
  let ?b1 = "\<lparr>in_file = [7], page = [[1, 2]], line = [1, 2 :: byte], line_offset = 2,
      in_raster = True, number = 1, format = 1030, warnings = []\<rparr>"
  let ?c = "\<lparr>in_file = [0x02, 0x00, 0xA5, 0x80, 0x11], page = [], line = [] :: byte list,
      line_offset = 0, in_raster = True, number = 5, format = 1030, warnings = []\<rparr>"
  let ?c1 = "\<lparr>in_file = [0x00, 0xA5, 0x80, 0x11], page = [], line = [] :: byte list,
      line_offset = 0, in_raster = True, number = 4, format = 1030, warnings = []\<rparr>"
  let ?c2 = "\<lparr>in_file = [0x80, 0x11], page = [], line = [0xA5 :: byte],
      line_offset = 1, in_raster = True, number = 2, format = 1030, warnings = []\<rparr>"
  let ?c3 = "\<lparr>in_file = [], page = [], line = [0xA5, 0x11, 0x11 :: byte],
      line_offset = 3, in_raster = True, number = 0, format = 1030, warnings = []\<rparr>"
  let ?f = "\<lambda>r. case r of Inl e \<Rightarrow> Inl e | Inr s' \<Rightarrow> read_edit s'"
  have ga: "get_next_block_character ?a = Inr (255, ?a1)"
    by (simp add: get_next_block_character_def get_def)
  have gb: "get_next_block_character ?a1 = Inr (0, ?b1)"
    by (simp add: get_next_block_character_def get_def)
  have gc: "get_next_block_character ?c = Inr (2, ?c1)"
    by (simp add: get_next_block_character_def get_def)
  from read_line_cases [OF ga]
  have ra: "read_line ?a = Inr (?a1\<lparr>line := [], page := page ?a @ [[]]\<rparr>)"
    by blast
  from read_line_cases [OF gb]
  have rb: "read_line ?a1 = Inr (?b1\<lparr>line_offset := 0, page := page ?a1 @ [line ?a1]\<rparr>)"
    by blast
  have e1: "read_edit ?c1 = Inr ?c2"
    by (simp add: read_edit_def read_substitute_def substitute_fields_def add_overflow_def
        get_next_block_character_def get_def grow_line_def resize_def MAX_LINE_SIZE_def)
  have r2: "replicate 2 (0x11 :: byte) = [0x11, 0x11]"
    by (simp add: numeral_2_eq_2)
  have e2: "read_edit ?c2 = Inr ?c3"
    by (simp add: read_edit_def read_repeat_def repeat_fields_def add_overflow_def
        get_next_block_character_def get_def grow_line_def resize_def MAX_LINE_SIZE_def
        fill_n_replicate r2)
  have u: "unat (2 :: byte) = Suc (Suc 0)" by simp
  have c1: "?c1\<lparr>line_offset := 0\<rparr> = ?c1" by simp
  have two: "(?f ^^ unat (2 :: byte)) (Inr (?c1\<lparr>line_offset := 0\<rparr>)) = Inr ?c3"
    by (simp only: u c1 funpow.simps o_apply id_apply sum.case e1 e2)
  have "(2 :: byte) \<noteq> 255" by simp
  with read_line_cases [OF gc]
  have "read_line ?c =
      (case (?f ^^ unat (2 :: byte)) (Inr (?c1\<lparr>line_offset := 0\<rparr>)) of
         Inl e \<Rightarrow> Inl e
       | Inr st2 \<Rightarrow> Inr (st2\<lparr>page := page ?c @ [line st2]\<rparr>))"
    by blast
  then have rc: "read_line ?c = Inr (?c3\<lparr>page := page ?c @ [line ?c3]\<rparr>)"
    by (simp only: two sum.case)
  from ra rb rc show ?thesis by simp
qed

text \<open>
  C9: the block reader fails with \<open>read_past_block_end\<close> exactly when it is called
  with \<open>number = 0\<close>. When \<open>read_block\<close> returns with \<open>number > 0\<close>, the warning
  with that count is printed and that many bytes are skipped (\<open>unexpected_eof\<close> when
  the input has fewer). So whenever the graphics-data action succeeds, it has taken
  exactly the declared \<open>number\<close> of bytes from the input.
\<close>

theorem block_bytes_exact:
  "(get_next_block_character st = Inl Read_past_block_end \<longleftrightarrow> number st = 0) \<and>
   (format st = 1030 \<and> read_block st = Inr st1 \<and> number st1 \<noteq> 0 \<longrightarrow>
      graphics_data st =
        (if unat (number st1) \<le> length (in_file st1)
         then Inr (st1\<lparr>in_file := drop (unat (number st1)) (in_file st1), number := 0,
                        warnings := warnings st @ [number st1]\<rparr>)
         else Inl Unexpected_eof)) \<and>
   (graphics_data st = Inr st' \<longrightarrow>
      unat (number st) \<le> length (in_file st) \<and>
      in_file st' = drop (unat (number st)) (in_file st) \<and> number st' = 0)"
proof (intro conjI impI)
  show "get_next_block_character st = Inl Read_past_block_end \<longleftrightarrow> number st = 0"
    by (auto simp: get_next_block_character_def get_def split: list.splits)
next
  assume "format st = 1030 \<and> read_block st = Inr st1 \<and> number st1 \<noteq> 0"
  then show "graphics_data st =
      (if unat (number st1) \<le> length (in_file st1)
       then Inr (st1\<lparr>in_file := drop (unat (number st1)) (in_file st1), number := 0,
                      warnings := warnings st @ [number st1]\<rparr>)
       else Inl Unexpected_eof)"
    by (simp add: graphics_data_leftover)
next
  assume "graphics_data st = Inr st'"
  then show "unat (number st) \<le> length (in_file st)"
    and "in_file st' = drop (unat (number st)) (in_file st)"
    and "number st' = 0"
    by (simp_all add: graphics_data_exact)
qed

theorem block_bytes_exact_witness:
  "graphics_data ((initial [0, 0, 0xAA, 0xBB, 9])\<lparr>number := 4, format := 1030\<rparr>) =
     Inr ((initial [9])\<lparr>format := 1030, warnings := [2]\<rparr>) \<and>
   get_next_block_character (initial [9]) = Inl Read_past_block_end"
proof -
  let ?st = "(initial [0, 0, 0xAA, 0xBB, 9])\<lparr>number := 4, format := 1030\<rparr>"
  let ?st1 = "(initial [0xAA, 0xBB, 9])\<lparr>number := 2, format := 1030\<rparr>"
  have b: "read_block ?st = Inr ?st1"
    by (simp add: read_block_def get_next_block_character_def get_def initial_def)
  have "format ?st = 1030 \<and> read_block ?st = Inr ?st1 \<and> number ?st1 \<noteq> 0"
    using b by (simp add: initial_def)
  with block_bytes_exact [of ?st ?st1]
  have "graphics_data ?st =
      (if unat (number ?st1) \<le> length (in_file ?st1)
       then Inr (?st1\<lparr>in_file := drop (unat (number ?st1)) (in_file ?st1), number := 0,
                      warnings := warnings ?st @ [number ?st1]\<rparr>)
       else Inl Unexpected_eof)"
    by blast
  then have g: "graphics_data ?st = Inr ((initial [9])\<lparr>format := 1030, warnings := [2]\<rparr>)"
    by (simp add: initial_def)
  have "number (initial [9]) = 0" by (simp add: initial_def)
  with block_bytes_exact [of "initial [9]"]
  have "get_next_block_character (initial [9]) = Inl Read_past_block_end"
    by blast
  with g show ?thesis by (rule conjI)
qed



end
